theory Spec2Isabelle
  imports Main "HOL-Library.Sublist"
begin

section \<open>Strings and attribute values as the widgets read them\<close>

text \<open>
  Attribute values are strings; \<open>getAttribute\<close> answers \<open>null\<close> (here \<open>None\<close>) for an
  absent attribute. The widgets' getters all have the shape
  \<^verbatim>\<open>this.getAttribute(name) || dflt\<close>: both \<open>null\<close> and the empty string are falsy.
\<close>

type_synonym attrs = "string \<rightharpoonup> string"

definition getAttribute :: "attrs \<Rightarrow> string \<Rightarrow> string option" where
  "getAttribute a name = a name"

definition hasAttribute :: "attrs \<Rightarrow> string \<Rightarrow> bool" where
  "hasAttribute a name = (a name \<noteq> None)"

fun or_default :: "string option \<Rightarrow> string \<Rightarrow> string" where
  "or_default None d = d"
| "or_default (Some s) d = (if s = [] then d else s)"

text \<open>The character class \<^verbatim>\<open>\w\<close> of a JavaScript regular expression: \<^verbatim>\<open>[A-Za-z0-9_]\<close>.\<close>

definition is_digit :: "char \<Rightarrow> bool" where
  "is_digit c = (let n = (of_char c :: nat) in 48 \<le> n \<and> n \<le> 57)"

definition is_word_char :: "char \<Rightarrow> bool" where
  "is_word_char c =
     (let n = (of_char c :: nat) in
        (48 \<le> n \<and> n \<le> 57) \<or> (65 \<le> n \<and> n \<le> 90) \<or> n = 95 \<or> (97 \<le> n \<and> n \<le> 122))"

text \<open>\<^verbatim>\<open>s.replace(/[^\w-]/g, '')\<close>: every character outside \<^verbatim>\<open>[\w-]\<close> is dropped.\<close>

definition sanitize :: "string \<Rightarrow> string" where
  "sanitize s = filter (\<lambda>c. is_word_char c \<or> c = CHR ''-'') s"

text \<open>
  White space as \<^verbatim>\<open>parseInt\<close>, \<^verbatim>\<open>trim\<close> and \<^verbatim>\<open>\s\<close> see it, on the one-byte
  characters of this model: tab, line feed, vertical tab, form feed, carriage return,
  space and the no-break space.
\<close>

definition is_space :: "char \<Rightarrow> bool" where
  "is_space c = (let n = (of_char c :: nat) in (9 \<le> n \<and> n \<le> 13) \<or> n = 32 \<or> n = 160)"

subsection \<open>Numbers: \<^verbatim>\<open>parseInt(s, 10)\<close> and \<^verbatim>\<open>String(n)\<close>\<close>

text \<open>
  A JavaScript number that \<^verbatim>\<open>parseInt\<close> can answer is \<open>NaN\<close> or an integer. The model
  keeps the integer exactly; JavaScript does so up to \<open>2^53 - 1\<close> in absolute value
  (\<open>safe_int\<close>). Beyond that bound JavaScript rounds the number, and from \<open>10^21\<close> on it
  prints it with an exponent, which the model does not follow: a statement that
  prints a number assumes the bound.
\<close>

datatype jsnum = NaN | Num int

definition digit_val :: "char \<Rightarrow> nat" where
  "digit_val c = of_char c - 48"

definition digits_val :: "string \<Rightarrow> nat" where
  "digits_val ds = foldl (\<lambda>acc c. 10 * acc + digit_val c) 0 ds"

definition parseInt :: "string \<Rightarrow> jsnum" where
  "parseInt s =
     (let t = dropWhile is_space s;
          neg = (t \<noteq> [] \<and> hd t = CHR ''-'');
          r = (if t \<noteq> [] \<and> (hd t = CHR ''-'' \<or> hd t = CHR ''+'') then tl t else t);
          ds = takeWhile is_digit r
      in if ds = [] then NaN
         else Num (if neg then - int (digits_val ds) else int (digits_val ds)))"

definition safe_int :: "int \<Rightarrow> bool" where
  "safe_int n = (\<bar>n\<bar> \<le> 9007199254740991)"

definition digit_char :: "nat \<Rightarrow> char" where
  "digit_char d = char_of (48 + d)"

fun show_nat :: "nat \<Rightarrow> string" where
  "show_nat n = (if n < 10 then [digit_char n] else show_nat (n div 10) @ [digit_char (n mod 10)])"

declare show_nat.simps [simp del]

definition show_int :: "int \<Rightarrow> string" where
  "show_int n = (if n < 0 then CHR ''-'' # show_nat (nat (- n)) else show_nat (nat n))"

text \<open>Truthiness of the value of a numeric getter: \<open>null\<close>, \<open>NaN\<close> and \<open>0\<close> are falsy.\<close>

fun truthy_num :: "jsnum option \<Rightarrow> bool" where
  "truthy_num None = False"
| "truthy_num (Some NaN) = False"
| "truthy_num (Some (Num n)) = (n \<noteq> 0)"

section \<open>The document and its style registry\<close>

text \<open>
  The document is seen through its elements that matter to \<^verbatim>\<open>getElementById\<close>: those
  of the head and those of the body, in tree order. \<^verbatim>\<open>document.getElementById(id)\<close>
  answers the first element with that id, whatever its tag;
  \<^verbatim>\<open>document.head.appendChild(styleEl)\<close> puts the new element last in the head.
\<close>

record dom_el =
  el_tag :: string
  el_id :: string
  el_text :: string

record document =
  head :: "dom_el list"
  body :: "dom_el list"

definition getElementById :: "document \<Rightarrow> string \<Rightarrow> dom_el option" where
  "getElementById doc i = find (\<lambda>e. el_id e = i) (head doc @ body doc)"

definition createStyle :: "string \<Rightarrow> string \<Rightarrow> dom_el" where
  "createStyle i css = \<lparr>el_tag = ''style'', el_id = i, el_text = css\<rparr>"

definition appendToHead :: "dom_el \<Rightarrow> document \<Rightarrow> document" where
  "appendToHead e doc = doc\<lparr>head := head doc @ [e]\<rparr>"

text \<open>
  The block every \<open>render\<close> ends with:
  \<^verbatim>\<open>if (!document.getElementById(id)) { styleEl = ...; styleEl.id = id;
  styleEl.textContent = css; document.head.appendChild(styleEl); }\<close>
\<close>

definition realize :: "string \<Rightarrow> string \<Rightarrow> document \<Rightarrow> document" where
  "realize i css doc =
     (case getElementById doc i of
        None \<Rightarrow> appendToHead (createStyle i css) doc
      | Some _ \<Rightarrow> doc)"

text \<open>The stylesheet entries of a fingerprint: the style elements carrying it as id.\<close>

definition style_entries :: "document \<Rightarrow> string \<Rightarrow> dom_el list" where
  "style_entries doc i = filter (\<lambda>e. el_tag e = ''style'' \<and> el_id e = i) (head doc @ body doc)"

section \<open>The widget element\<close>

text \<open>
  What \<open>render\<close> reads and writes on the element itself: its attributes, its
  \<^verbatim>\<open>dataset\<close> and the custom properties of its inline style.
\<close>

record widget =
  w_attrs :: attrs
  w_dataset :: "string \<rightharpoonup> string"
  w_style :: "string \<rightharpoonup> string"

definition setProperty :: "string \<Rightarrow> string \<Rightarrow> widget \<Rightarrow> widget" where
  "setProperty p v w = w\<lparr>w_style := (w_style w)(p \<mapsto> v)\<rparr>"

definition set_data_i :: "string \<Rightarrow> widget \<Rightarrow> widget" where
  "set_data_i i w = w\<lparr>w_dataset := (w_dataset w)(''i'' \<mapsto> i)\<rparr>"

definition selector_of :: "string \<Rightarrow> string" where
  "selector_of i = ''[data-i=\"'' @ i @ ''\"]''"

subsection \<open>i-hath (HathLayout)\<close>

definition hath_space :: "attrs \<Rightarrow> string" where
  "hath_space a = or_default (getAttribute a ''space'') ''var(--s1)''"

definition hath_recursive :: "attrs \<Rightarrow> bool" where
  "hath_recursive a = hasAttribute a ''recursive''"

text \<open>\<^verbatim>\<open>val ? parseInt(val, 10) : null\<close>\<close>

definition hath_splitAfter :: "attrs \<Rightarrow> jsnum option" where
  "hath_splitAfter a =
     (case getAttribute a ''split-after'' of
        None \<Rightarrow> None
      | Some v \<Rightarrow> if v = [] then None else Some (parseInt v))"

text \<open>The text a template literal gives for the getter's value.\<close>

fun show_num :: "jsnum option \<Rightarrow> string" where
  "show_num None = ''null''"
| "show_num (Some NaN) = ''NaN''"
| "show_num (Some (Num n)) = show_int n"

definition hath_id :: "attrs \<Rightarrow> string" where
  "hath_id a =
     (let recursive = (if hath_recursive a then ''-recursive'' else '''');
          split = (if truthy_num (hath_splitAfter a)
                   then ''-split'' @ show_num (hath_splitAfter a) else '''')
      in sanitize (''Hath-'' @ hath_space a @ recursive @ split))"

definition hath_css :: "attrs \<Rightarrow> string" where
  "hath_css a =
     (let selector = selector_of (hath_id a);
          css = (if hath_recursive a
                 then selector @ '' * + * { margin-block-start: '' @ hath_space a @ ''; }''
                 else selector @ '' > * + * { margin-block-start: '' @ hath_space a @ ''; }'')
      in if truthy_num (hath_splitAfter a)
         then css @ selector @ '' > :nth-child('' @ show_num (hath_splitAfter a)
                @ '') { margin-block-end: auto; }''
         else css)"

definition hath_render :: "widget \<Rightarrow> document \<Rightarrow> widget \<times> document" where
  "hath_render w doc =
     (let a = w_attrs w;
          i = hath_id a;
          w' = setProperty ''--hath-space'' (hath_space a) (set_data_i i w)
      in (w', realize i (hath_css a) doc))"

text \<open>Attaching a list of instances, one after the other, to the same document.\<close>

fun hath_render_all :: "widget list \<Rightarrow> document \<Rightarrow> document" where
  "hath_render_all [] doc = doc"
| "hath_render_all (w # ws) doc = hath_render_all ws (snd (hath_render w doc))"

text \<open>
  What the id and the stylesheet of an i-hath read of its options: \<open>space\<close>,
  \<open>recursive\<close>, and \<open>splitAfter\<close> through its truthiness and, when truthy, its number.
\<close>

definition hath_split :: "attrs \<Rightarrow> int option" where
  "hath_split a =
     (case hath_splitAfter a of
        Some (Num n) \<Rightarrow> if n \<noteq> 0 then Some n else None
      | _ \<Rightarrow> None)"

definition hath_config :: "attrs \<Rightarrow> string \<times> bool \<times> int option" where
  "hath_config a = (hath_space a, hath_recursive a, hath_split a)"

subsection \<open>i-bau (BauLayout)\<close>

definition bau_padding :: "attrs \<Rightarrow> string" where
  "bau_padding a = or_default (getAttribute a ''padding'') ''var(--s1)''"

definition bau_borderWidth :: "attrs \<Rightarrow> string" where
  "bau_borderWidth a = or_default (getAttribute a ''border-width'') ''var(--border-thin)''"

definition bau_invert :: "attrs \<Rightarrow> bool" where
  "bau_invert a = hasAttribute a ''invert''"

definition bau_borderless :: "attrs \<Rightarrow> bool" where
  "bau_borderless a = hasAttribute a ''borderless''"

definition bau_compact :: "attrs \<Rightarrow> bool" where
  "bau_compact a = hasAttribute a ''compact''"

definition bau_id :: "attrs \<Rightarrow> string" where
  "bau_id a =
     (let invertStr = (if bau_invert a then ''-invert'' else '''');
          borderlessStr = (if bau_borderless a then ''-borderless'' else '''');
          compactStr = (if bau_compact a then ''-compact'' else '''')
      in sanitize (''Bau-'' @ bau_padding a @ ''-'' @ bau_borderWidth a
                    @ invertStr @ borderlessStr @ compactStr))"

definition bau_css :: "attrs \<Rightarrow> string" where
  "bau_css a =
     (let selector = selector_of (bau_id a);
          css = selector @ '' { padding: '' @ bau_padding a @ ''; border-width: ''
                  @ bau_borderWidth a @ ''; }'';
          css1 = (if bau_borderless a then css @ selector @ '' { border-width: 0; }'' else css)
      in if bau_compact a then css1 @ selector @ '' { padding: 0; }'' else css1)"

definition bau_render :: "widget \<Rightarrow> document \<Rightarrow> widget \<times> document" where
  "bau_render w doc =
     (let a = w_attrs w;
          w1 = setProperty ''--bau-border-width'' (bau_borderWidth a)
                 (setProperty ''--bau-padding'' (bau_padding a) w);
          i = bau_id a
      in (set_data_i i w1, realize i (bau_css a) doc))"

definition bau_config :: "attrs \<Rightarrow> string \<times> string \<times> bool \<times> bool \<times> bool" where
  "bau_config a = (bau_padding a, bau_borderWidth a, bau_invert a, bau_borderless a, bau_compact a)"

text \<open>An option value made of word characters only: the sanitizer drops none of it,
  and it holds no hyphen.\<close>

definition word_only :: "string \<Rightarrow> bool" where
  "word_only s = list_all is_word_char s"

definition split_safe :: "attrs \<Rightarrow> bool" where
  "split_safe a = (case hath_split a of None \<Rightarrow> True | Some n \<Rightarrow> safe_int n)"

definition kept :: "string \<Rightarrow> bool" where
  "kept s = list_all (\<lambda>c. is_word_char c \<or> c = CHR ''-'') s"

subsection \<open>Splitting and trimming\<close>

text \<open>\<^verbatim>\<open>s.split(c)\<close> for a one-character separator: the pieces between the separators,
  at least one piece.\<close>

fun split_on :: "char \<Rightarrow> string \<Rightarrow> string list" where
  "split_on c [] = [[]]"
| "split_on c (x # xs) =
     (if x = c then [] # split_on c xs
      else (case split_on c xs of
              [] \<Rightarrow> [[x]]
            | y # ys \<Rightarrow> (x # y) # ys))"

definition trim :: "string \<Rightarrow> string" where
  "trim s = rev (dropWhile is_space (rev (dropWhile is_space s)))"

text \<open>An array element read by position: \<open>undefined\<close> (here \<open>None\<close>) beyond the end.\<close>

fun nth_opt :: "'a list \<Rightarrow> nat \<Rightarrow> 'a option" where
  "nth_opt [] n = None"
| "nth_opt (x # xs) 0 = Some x"
| "nth_opt (x # xs) (Suc n) = nth_opt xs n"

text \<open>The text a template literal gives for a string that may be \<open>undefined\<close>.\<close>

fun show_undef :: "string option \<Rightarrow> string" where
  "show_undef None = ''undefined''"
| "show_undef (Some s) = s"

definition nl :: string where
  "nl = [CHR 0x0A]"

subsection \<open>i-gant-thala (GantThalaLayout)\<close>

definition gant_ratio :: "attrs \<Rightarrow> string" where
  "gant_ratio a = or_default (getAttribute a ''ratio'') ''16:9''"

text \<open>\<^verbatim>\<open>const [n, d] = this.ratio.split(':').map(v => v.trim())\<close>\<close>

definition gant_parts :: "attrs \<Rightarrow> string option \<times> string option" where
  "gant_parts a =
     (let ps = map trim (split_on CHR '':'' (gant_ratio a)) in (nth_opt ps 0, nth_opt ps 1))"

definition gant_id :: "attrs \<Rightarrow> string" where
  "gant_id a =
     (case gant_parts a of
        (n, d) \<Rightarrow> sanitize (''GantThala-'' @ show_undef n @ ''-'' @ show_undef d))"

definition gant_css :: "attrs \<Rightarrow> string" where
  "gant_css a =
     (case gant_parts a of
        (n, d) \<Rightarrow>
          nl @ ''        '' @ selector_of (gant_id a) @ '' {'' @ nl
          @ ''          gant-thala-ratio: '' @ show_undef n @ '' / '' @ show_undef d @ '';'' @ nl
          @ ''        }'' @ nl @ ''      '')"

definition gant_render :: "widget \<Rightarrow> document \<Rightarrow> widget \<times> document" where
  "gant_render w doc =
     (let a = w_attrs w;
          w1 = setProperty ''--gant-thala-d'' (show_undef (snd (gant_parts a)))
                 (setProperty ''--gant-thala-n'' (show_undef (fst (gant_parts a))) w);
          i = gant_id a
      in (set_data_i i w1, realize i (gant_css a) doc))"

subsection \<open>Numeric getters with a default\<close>

text \<open>
  \<^verbatim>\<open>parseInt(this.getAttribute(name), 10) || dflt\<close>: an absent attribute is \<open>null\<close>,
  which \<^verbatim>\<open>parseInt\<close> reads as the string \<open>null\<close>; \<open>NaN\<close> and \<open>0\<close> are falsy.
\<close>

definition parseInt_or :: "string option \<Rightarrow> int \<Rightarrow> int" where
  "parseInt_or v dflt =
     (case parseInt (case v of None \<Rightarrow> ''null'' | Some s \<Rightarrow> s) of
        NaN \<Rightarrow> dflt
      | Num n \<Rightarrow> if n = 0 then dflt else n)"

definition miriant_columns :: "attrs \<Rightarrow> int" where
  "miriant_columns a = parseInt_or (getAttribute a ''columns'') 12"

definition gwistindor_limit :: "attrs \<Rightarrow> int" where
  "gwistindor_limit a = parseInt_or (getAttribute a ''limit'') 4"

section \<open>Observation primitives of the environment\<close>

text \<open>Which of the observer constructors \<^verbatim>\<open>window\<close> offers.\<close>

record caps =
  has_IntersectionObserver :: bool
  has_ResizeObserver :: bool
  has_MutationObserver :: bool

section \<open>i-him (HimLayout): sticky element with a sentinel\<close>

definition him_to :: "attrs \<Rightarrow> string" where
  "him_to a = or_default (getAttribute a ''to'') ''top''"

definition him_offset :: "attrs \<Rightarrow> string" where
  "him_offset a = or_default (getAttribute a ''offset'') ''0''"

definition him_sentinel :: "attrs \<Rightarrow> bool" where
  "him_sentinel a = hasAttribute a ''sentinel''"

definition him_observedAttributes :: "string list" where
  "him_observedAttributes = [''to'', ''offset'', ''sentinel'']"

definition him_id :: "attrs \<Rightarrow> string" where
  "him_id a = sanitize (''Him-'' @ him_to a @ ''-'' @ him_offset a)"

definition him_css :: "attrs \<Rightarrow> string" where
  "him_css a =
     (let selector = selector_of (him_id a) in
      if him_to a = ''bottom'' then
        selector @ '' { inset-block-start: auto; inset-block-end: '' @ him_offset a @ ''; }''
      else if him_to a = ''left'' then
        selector @ '' { inset-block-start: auto; inset-inline-start: '' @ him_offset a @ ''; }''
      else if him_to a = ''right'' then
        selector @ '' { inset-block-start: auto; inset-inline-end: '' @ him_offset a @ ''; }''
      else
        selector @ '' { inset-block-start: '' @ him_offset a @ ''; }'')"

text \<open>
  The element with what its methods touch. Observers and sentinel elements are named by
  handles. \<open>h_live\<close> holds the observers that are observing, \<open>h_sentinels\<close> the sentinel
  elements that sit in the document beside the element (with their position),
  \<open>h_frames\<close> counts the callbacks \<^verbatim>\<open>() => this.setupSentinel()\<close> handed to
  \<^verbatim>\<open>requestAnimationFrame\<close> and not yet run, and \<open>h_events\<close> lists the \<open>detail.stuck\<close>
  of every \<open>stuck-change\<close> event dispatched, oldest first.
\<close>

record him =
  h_el :: widget
  h_doc :: document
  h_attached :: bool
  h_observer :: "nat option"
  h_sentinelEl :: "nat option"
  h_live :: "nat list"
  h_sentinels :: "(nat \<times> string) list"
  h_frames :: nat
  h_next :: nat
  h_events :: "bool list"

definition him_init :: "attrs \<Rightarrow> document \<Rightarrow> him" where
  "him_init a doc =
     \<lparr>h_el = \<lparr>w_attrs = a, w_dataset = Map.empty, w_style = Map.empty\<rparr>,
      h_doc = doc, h_attached = False, h_observer = None, h_sentinelEl = None,
      h_live = [], h_sentinels = [], h_frames = 0, h_next = 0, h_events = []\<rparr>"

definition cleanupSentinel :: "him \<Rightarrow> him" where
  "cleanupSentinel st =
     (let st1 = (case h_observer st of
                   Some ob \<Rightarrow> st\<lparr>h_live := removeAll ob (h_live st), h_observer := None\<rparr>
                 | None \<Rightarrow> st)
      in case h_sentinelEl st1 of
           Some s \<Rightarrow> st1\<lparr>h_sentinels := filter (\<lambda>p. fst p \<noteq> s) (h_sentinels st1),
                        h_sentinelEl := None\<rparr>
         | None \<Rightarrow> st1)"

text \<open>
  \<^verbatim>\<open>insertAdjacentElement\<close> beside an element without a parent inserts nothing. The new
  observer observes the sentinel from its creation.
\<close>

definition setupSentinel :: "caps \<Rightarrow> him \<Rightarrow> him" where
  "setupSentinel c st0 =
     (let st = cleanupSentinel st0 in
      if \<not> him_sentinel (w_attrs (h_el st)) \<or> \<not> has_IntersectionObserver c then st
      else
        let s = h_next st;
            ob = Suc (h_next st);
            pos = (if him_to (w_attrs (h_el st)) = ''bottom'' then ''afterend'' else ''beforebegin'')
        in st\<lparr>h_sentinelEl := Some s,
               h_sentinels := (if h_attached st then h_sentinels st @ [(s, pos)] else h_sentinels st),
               h_observer := Some ob,
               h_live := h_live st @ [ob],
               h_next := h_next st + 2\<rparr>)"

text \<open>The text \<^verbatim>\<open>dataset.stuck = isStuck\<close> stores for a boolean.\<close>

definition show_bool :: "bool \<Rightarrow> string" where
  "show_bool b = (if b then ''true'' else ''false'')"

text \<open>The observer's callback, for one entry and for the array of entries it is handed;
  an entry is its \<open>isIntersecting\<close>.\<close>

definition on_entry :: "him \<Rightarrow> bool \<Rightarrow> him" where
  "on_entry st isIntersecting =
     (let isStuck = \<not> isIntersecting in
      st\<lparr>h_el := (h_el st)\<lparr>w_dataset := (w_dataset (h_el st))(''stuck'' \<mapsto> show_bool isStuck)\<rparr>,
         h_events := h_events st @ [isStuck]\<rparr>)"

definition io_callback :: "bool list \<Rightarrow> him \<Rightarrow> him" where
  "io_callback entries st = foldl on_entry st entries"

definition him_render :: "him \<Rightarrow> him" where
  "him_render st =
     (let a = w_attrs (h_el st);
          i = him_id a;
          el = set_data_i i (setProperty ''--him-offset'' (him_offset a) (h_el st));
          st1 = st\<lparr>h_el := el, h_doc := realize i (him_css a) (h_doc st)\<rparr>
      in if him_sentinel a then st1\<lparr>h_frames := Suc (h_frames st1)\<rparr>
         else cleanupSentinel st1)"

text \<open>
  What can happen to the element: the lifecycle callbacks, a pending frame callback
  running, and the environment handing entries to an observer (which reaches the
  callback only while that observer observes). An attribute change reaches
  \<open>attributeChangedCallback\<close> for the observed attributes only.
\<close>

datatype him_event =
    HConnected
  | HDisconnected
  | HAttributeChanged string "string option"
  | HFrame
  | HDeliver nat "bool list"

fun him_step :: "caps \<Rightarrow> him \<Rightarrow> him_event \<Rightarrow> him" where
  "him_step c st HConnected = him_render (st\<lparr>h_attached := True\<rparr>)"
| "him_step c st HDisconnected = cleanupSentinel (st\<lparr>h_attached := False\<rparr>)"
| "him_step c st (HAttributeChanged name v) =
     (let st1 = st\<lparr>h_el := (h_el st)\<lparr>w_attrs := (w_attrs (h_el st))(name := v)\<rparr>\<rparr>
      in if name \<in> set him_observedAttributes then him_render st1 else st1)"
| "him_step c st HFrame =
     (if h_frames st = 0 then st else setupSentinel c (st\<lparr>h_frames := h_frames st - 1\<rparr>))"
| "him_step c st (HDeliver ob entries) =
     (if ob \<in> set (h_live st) then io_callback entries st else st)"

definition him_run :: "caps \<Rightarrow> him \<Rightarrow> him_event list \<Rightarrow> him" where
  "him_run c st evs = foldl (him_step c) st evs"

text \<open>The entries that reach the callback during a run, in order.\<close>

fun delivered :: "caps \<Rightarrow> him \<Rightarrow> him_event list \<Rightarrow> bool list" where
  "delivered c st [] = []"
| "delivered c st (e # evs) =
     (case e of
        HDeliver ob entries \<Rightarrow> (if ob \<in> set (h_live st) then entries else [])
      | _ \<Rightarrow> [])
     @ delivered c (him_step c st e) evs"

text \<open>No two neighbours of the list are equal.\<close>

fun alternating :: "bool list \<Rightarrow> bool" where
  "alternating (x # y # ys) = (x \<noteq> y \<and> alternating (y # ys))"
| "alternating _ = True"

section \<open>i-glan-tholl (GlanThollLayout): overflow detection\<close>

definition glan_itemWidth :: "attrs \<Rightarrow> string" where
  "glan_itemWidth a = or_default (getAttribute a ''item-width'') ''auto''"

definition glan_space :: "attrs \<Rightarrow> string" where
  "glan_space a = or_default (getAttribute a ''space'') ''var(--s1)''"

definition glan_height :: "attrs \<Rightarrow> string" where
  "glan_height a = or_default (getAttribute a ''height'') ''auto''"

definition glan_noBar :: "attrs \<Rightarrow> bool" where
  "glan_noBar a = hasAttribute a ''no-bar''"

definition glan_observedAttributes :: "string list" where
  "glan_observedAttributes = [''item-width'', ''space'', ''height'', ''no-bar'']"

definition glan_id :: "attrs \<Rightarrow> string" where
  "glan_id a =
     (let noBarStr = (if glan_noBar a then ''-noBar'' else '''')
      in sanitize (''GlanTholl-'' @ glan_itemWidth a @ ''-'' @ glan_space a @ ''-''
                    @ glan_height a @ noBarStr))"

definition glan_css :: "attrs \<Rightarrow> string" where
  "glan_css a =
     (let selector = selector_of (glan_id a) in
        nl @ ''        '' @ selector @ '' {'' @ nl
        @ ''          block-size: '' @ glan_height a @ '';'' @ nl
        @ ''        }'' @ nl
        @ ''        '' @ selector @ '' > * {'' @ nl
        @ ''          flex: 0 0 '' @ glan_itemWidth a @ '';'' @ nl
        @ ''        }'' @ nl
        @ ''        '' @ selector @ '' > * + * {'' @ nl
        @ ''          margin-inline-start: '' @ glan_space a @ '';'' @ nl
        @ ''        }'' @ nl @ ''      '')"

text \<open>
  The container with what its methods touch: the two observer fields, the observers
  that are observing (\<open>gl_live\<close>), and whether its class list holds \<open>overflowing\<close>.
\<close>

record glan =
  gl_el :: widget
  gl_doc :: document
  gl_resizeObserver :: "nat option"
  gl_mutationObserver :: "nat option"
  gl_live :: "nat list"
  gl_next :: nat
  gl_overflowing :: bool

definition glan_init :: "attrs \<Rightarrow> document \<Rightarrow> glan" where
  "glan_init a doc =
     \<lparr>gl_el = \<lparr>w_attrs = a, w_dataset = Map.empty, w_style = Map.empty\<rparr>,
      gl_doc = doc, gl_resizeObserver = None, gl_mutationObserver = None,
      gl_live = [], gl_next = 0, gl_overflowing = False\<rparr>"

definition glan_render :: "glan \<Rightarrow> glan" where
  "glan_render st =
     (let a = w_attrs (gl_el st);
          el = setProperty ''--glan-tholl-height'' (glan_height a)
                 (setProperty ''--glan-tholl-space'' (glan_space a)
                   (setProperty ''--glan-tholl-item-width'' (glan_itemWidth a) (gl_el st)));
          i = glan_id a
      in st\<lparr>gl_el := set_data_i i el, gl_doc := realize i (glan_css a) (gl_doc st)\<rparr>)"

text \<open>\<^verbatim>\<open>this.classList.toggle('overflowing', this.scrollWidth > this.clientWidth)\<close>, the two
  widths being what the environment measures at that moment.\<close>

definition toggleOverflowClass :: "nat \<Rightarrow> nat \<Rightarrow> glan \<Rightarrow> glan" where
  "toggleOverflowClass scrollWidth clientWidth st = st\<lparr>gl_overflowing := (scrollWidth > clientWidth)\<rparr>"

definition setupObservers :: "caps \<Rightarrow> nat \<Rightarrow> nat \<Rightarrow> glan \<Rightarrow> glan" where
  "setupObservers c scrollWidth clientWidth st =
     (let st1 = (if has_ResizeObserver c
                 then st\<lparr>gl_resizeObserver := Some (gl_next st),
                         gl_live := gl_live st @ [gl_next st],
                         gl_next := Suc (gl_next st)\<rparr>
                 else st);
          st2 = (if has_MutationObserver c
                 then st1\<lparr>gl_mutationObserver := Some (gl_next st1),
                          gl_live := gl_live st1 @ [gl_next st1],
                          gl_next := Suc (gl_next st1)\<rparr>
                 else st1)
      in toggleOverflowClass scrollWidth clientWidth st2)"

definition glan_disconnectedCallback :: "glan \<Rightarrow> glan" where
  "glan_disconnectedCallback st =
     (let st1 = (case gl_resizeObserver st of
                   Some ob \<Rightarrow> st\<lparr>gl_live := removeAll ob (gl_live st)\<rparr>
                 | None \<Rightarrow> st)
      in case gl_mutationObserver st1 of
           Some ob \<Rightarrow> st1\<lparr>gl_live := removeAll ob (gl_live st1)\<rparr>
         | None \<Rightarrow> st1)"

text \<open>
  What can happen to the container. The widths are those the environment measures when
  the callback runs; an observer's callback runs only while that observer observes.
\<close>

datatype glan_event =
    GConnected nat nat
  | GDisconnected
  | GAttributeChanged string "string option"
  | GObserved nat nat nat

fun glan_step :: "caps \<Rightarrow> glan \<Rightarrow> glan_event \<Rightarrow> glan" where
  "glan_step c st (GConnected scrollWidth clientWidth) =
     setupObservers c scrollWidth clientWidth (glan_render st)"
| "glan_step c st GDisconnected = glan_disconnectedCallback st"
| "glan_step c st (GAttributeChanged name v) =
     (let st1 = st\<lparr>gl_el := (gl_el st)\<lparr>w_attrs := (w_attrs (gl_el st))(name := v)\<rparr>\<rparr>
      in if name \<in> set glan_observedAttributes then glan_render st1 else st1)"
| "glan_step c st (GObserved ob scrollWidth clientWidth) =
     (if ob \<in> set (gl_live st) then toggleOverflowClass scrollWidth clientWidth st else st)"

definition glan_run :: "caps \<Rightarrow> glan \<Rightarrow> glan_event list \<Rightarrow> glan" where
  "glan_run c st evs = foldl (glan_step c) st evs"

text \<open>The comparison made by the initial check of the latest attachment in a list of
  events, and \<open>b\<close> when the list holds no attachment.\<close>

fun initial_check :: "bool \<Rightarrow> glan_event list \<Rightarrow> bool" where
  "initial_check b [] = b"
| "initial_check b (GConnected scrollWidth clientWidth # evs) =
     initial_check (scrollWidth > clientWidth) evs"
| "initial_check b (_ # evs) = initial_check b evs"

section \<open>i-gil (ElvishGil): the prefetching link\<close>

subsection \<open>The element's subtree\<close>

text \<open>
  The children of the element as a tree of text and element nodes; an element node has
  a tag (lower case, as the DOM keeps it), its attributes in order, and its children.
\<close>

datatype node = Text string | Element string "(string \<times> string) list" "node list"

text \<open>\<^verbatim>\<open>this.querySelector('a')\<close> finds something: some descendant is an anchor.\<close>

fun has_anchor :: "node list \<Rightarrow> bool" where
  "has_anchor [] = False"
| "has_anchor (Text t # ns) = has_anchor ns"
| "has_anchor (Element tag as cs # ns) = (tag = ''a'' \<or> has_anchor cs \<or> has_anchor ns)"

text \<open>Apply \<open>f\<close> to the attributes of the anchor \<^verbatim>\<open>querySelector('a')\<close> answers: the first
  one in document order.\<close>

fun update_anchor :: "((string \<times> string) list \<Rightarrow> (string \<times> string) list) \<Rightarrow> node list \<Rightarrow> node list" where
  "update_anchor f [] = []"
| "update_anchor f (Text t # ns) = Text t # update_anchor f ns"
| "update_anchor f (Element tag as cs # ns) =
     (if tag = ''a'' then Element tag (f as) cs # ns
      else if has_anchor cs then Element tag as (update_anchor f cs) # ns
      else Element tag as cs # update_anchor f ns)"

fun count_anchors :: "node list \<Rightarrow> nat" where
  "count_anchors [] = 0"
| "count_anchors (Text t # ns) = count_anchors ns"
| "count_anchors (Element tag as cs # ns) =
     (if tag = ''a'' then 1 else 0) + count_anchors cs + count_anchors ns"

text \<open>The tree without its attributes: what restructuring would change.\<close>

fun skeleton :: "node list \<Rightarrow> node list" where
  "skeleton [] = []"
| "skeleton (Text t # ns) = Text t # skeleton ns"
| "skeleton (Element tag as cs # ns) = Element tag [] (skeleton cs) # skeleton ns"

text \<open>\<^verbatim>\<open>setAttribute\<close>: replace the value in place, or add the attribute last.\<close>

fun set_attr :: "string \<Rightarrow> string \<Rightarrow> (string \<times> string) list \<Rightarrow> (string \<times> string) list" where
  "set_attr k v [] = [(k, v)]"
| "set_attr k v (p # ps) = (if fst p = k then (k, v) # ps else p # set_attr k v ps)"

text \<open>The text a template literal or a string-valued property gives for \<open>null\<close>.\<close>

fun show_null :: "string option \<Rightarrow> string" where
  "show_null None = ''null''"
| "show_null (Some s) = s"

subsection \<open>Reading the \<open>prefetch\<close> attribute\<close>

text \<open>\<^verbatim>\<open>s.split(/\s+/)\<close>: the pieces between the maximal runs of white space.\<close>

function split_ws :: "string \<Rightarrow> string list" where
  "split_ws [] = [[]]"
| "split_ws (x # xs) =
     (if is_space x then [] # split_ws (dropWhile is_space xs)
      else (case split_ws xs of
              [] \<Rightarrow> [[x]]
            | y # ys \<Rightarrow> (x # y) # ys))"
  by pat_completeness auto
termination
  by (relation "measure length") (auto simp: length_dropWhile_le less_Suc_eq_le)

text \<open>A resource to prefetch: its type and its value, \<open>null\<close> for the shorthand.\<close>

type_synonym resource = "string \<times> string option"

text \<open>One part of the attribute: \<^verbatim>\<open>type:item,item\<close> gives a resource per item (only the
  first two pieces around colons are read), a part without a colon the shorthand.\<close>

definition parse_part :: "string \<Rightarrow> resource list" where
  "parse_part part =
     (if CHR '':'' \<in> set part then
        (case split_on CHR '':'' part of
           type # items # _ \<Rightarrow> map (\<lambda>item. (type, Some (trim item))) (split_on CHR '','' items)
         | _ \<Rightarrow> [])
      else [(part, None)])"

definition parsePrefetch :: "attrs \<Rightarrow> resource list" where
  "parsePrefetch a =
     concat (map parse_part (split_ws (or_default (getAttribute a ''prefetch'') ''html'')))"

text \<open>\<^verbatim>\<open>value || href\<close>, and the key \<^verbatim>\<open>`${type}:${value || href}`\<close>.\<close>

definition value_or :: "string option \<Rightarrow> string option \<Rightarrow> string option" where
  "value_or v href = (case v of None \<Rightarrow> href | Some s \<Rightarrow> if s = [] then href else Some s)"

definition resource_key :: "resource \<Rightarrow> string option \<Rightarrow> string" where
  "resource_key r href = fst r @ '':'' @ show_null (value_or (snd r) href)"

subsection \<open>State\<close>

text \<open>
  A run of the asynchronous \<open>doPrefetch\<close> that waits at an \<^verbatim>\<open>await\<close>: the resources
  still to visit, the \<open>href\<close> it read when it started, and the key to warn about when the
  awaited call was rejected.
\<close>

record task =
  t_warn :: "string option"
  t_rest :: "resource list"
  t_href :: "string option"

text \<open>The listeners are closures made by \<open>setupHoverPrefetch\<close>; the number tells the call
  that made them.\<close>

datatype handler = OnEnter nat | OnLeave nat | OnTouch nat

type_synonym listener = "string \<times> bool \<times> handler"

datatype timer_kind = Timeout | IdleCallback

text \<open>
  The element with what its methods touch. \<open>gi_prefetched\<close> is the \<^verbatim>\<open>Set\<close> in insertion
  order. Of the environment: the listeners registered on the element (type, capture
  flag, closure), the timers and idle callbacks pending, the observers observing, the
  runs of \<open>doPrefetch\<close> waiting, every call of a \<open>prefetch...\<close> method made (key, type,
  argument), the warnings logged, and the \<open>detail.resources\<close> of every \<open>prefetched\<close>
  event dispatched. Handles start at 1, as timer ids do (a timer id is truthy).
\<close>

record gil =
  gi_attrs :: attrs
  gi_children :: "node list"
  gi_prefetched :: "string list"
  gi_hoverTimer :: "nat option"
  gi_observer :: "nat option"
  gi_cleanup :: "nat option"
  gi_listeners :: "listener list"
  gi_timers :: "(nat \<times> timer_kind) list"
  gi_live :: "nat list"
  gi_next :: nat
  gi_tasks :: "task list"
  gi_attempts :: "(string \<times> string \<times> string option) list"
  gi_warnings :: "string list"
  gi_dispatched :: "string list list"

definition gil_init :: "attrs \<Rightarrow> node list \<Rightarrow> gil" where
  "gil_init a cs =
     \<lparr>gi_attrs = a, gi_children = cs, gi_prefetched = [], gi_hoverTimer = None,
      gi_observer = None, gi_cleanup = None, gi_listeners = [], gi_timers = [],
      gi_live = [], gi_next = 1, gi_tasks = [], gi_attempts = [], gi_warnings = [],
      gi_dispatched = []\<rparr>"

text \<open>
  The environment of an i-gil: which calls of a \<open>prefetch...\<close> method (type, argument)
  throw or are rejected, and whether \<^verbatim>\<open>requestIdleCallback\<close> exists.
  \<^verbatim>\<open>IntersectionObserver\<close> is taken to exist.
\<close>

record gil_env =
  throws :: "string \<Rightarrow> string option \<Rightarrow> bool"
  has_requestIdleCallback :: bool

subsection \<open>\<open>doPrefetch\<close>\<close>

definition awaited_types :: "string list" where
  "awaited_types = [''html'', ''css'', ''js'', ''json'', ''image'']"

text \<open>The argument of the call: \<^verbatim>\<open>prefetchHTML(value || href)\<close>, the value itself for the
  other types.\<close>

definition call_arg :: "resource \<Rightarrow> string option \<Rightarrow> string option" where
  "call_arg r href = (if fst r = ''html'' then value_or (snd r) href else snd r)"

definition warn_text :: "string \<Rightarrow> string" where
  "warn_text key = ''[i-gil] Failed to prefetch '' @ key"

text \<open>
  The loop of \<open>doPrefetch\<close> from some resource on, up to the next \<^verbatim>\<open>await\<close> or to the end,
  where the \<open>prefetched\<close> event is dispatched. The calls for \<open>html\<close>, \<open>css\<close>, \<open>js\<close>, \<open>json\<close>
  and \<open>image\<close> are awaited: the run is suspended, and a rejection is caught when it
  resumes. The call for \<open>icons\<close> is synchronous, its exception caught at once. Any other
  type makes no call.
\<close>

fun prefetch_loop :: "gil_env \<Rightarrow> string option \<Rightarrow> resource list \<Rightarrow> gil \<Rightarrow> gil" where
  "prefetch_loop env href [] st = st\<lparr>gi_dispatched := gi_dispatched st @ [gi_prefetched st]\<rparr>"
| "prefetch_loop env href (r # rs) st =
     (let key = resource_key r href in
      if key \<in> set (gi_prefetched st) then prefetch_loop env href rs st
      else
        let st1 = st\<lparr>gi_prefetched := gi_prefetched st @ [key]\<rparr> in
        if fst r \<in> set awaited_types then
          st1\<lparr>gi_attempts := gi_attempts st1 @ [(key, fst r, call_arg r href)],
              gi_tasks := gi_tasks st1 @
                [\<lparr>t_warn = (if throws env (fst r) (call_arg r href) then Some key else None),
                  t_rest = rs, t_href = href\<rparr>]\<rparr>
        else if fst r = ''icons'' then
          prefetch_loop env href rs
            (st1\<lparr>gi_attempts := gi_attempts st1 @ [(key, fst r, call_arg r href)],
                 gi_warnings := (if throws env (fst r) (call_arg r href)
                                 then gi_warnings st1 @ [warn_text key] else gi_warnings st1)\<rparr>)
        else prefetch_loop env href rs st1)"

definition doPrefetch :: "gil_env \<Rightarrow> gil \<Rightarrow> gil" where
  "doPrefetch env st =
     prefetch_loop env (getAttribute (gi_attrs st) ''href'') (parsePrefetch (gi_attrs st)) st"

text \<open>The waiting run number \<open>i\<close> resumes: the \<^verbatim>\<open>catch\<close> logs the warning if the awaited
  call was rejected, and the loop goes on.\<close>

definition resume :: "gil_env \<Rightarrow> nat \<Rightarrow> gil \<Rightarrow> gil" where
  "resume env i st =
     (if i < length (gi_tasks st) then
        let t = gi_tasks st ! i;
            st1 = st\<lparr>gi_tasks := take i (gi_tasks st) @ drop (Suc i) (gi_tasks st)\<rparr>;
            st2 = (case t_warn t of
                     Some key \<Rightarrow> st1\<lparr>gi_warnings := gi_warnings st1 @ [warn_text key]\<rparr>
                   | None \<Rightarrow> st1)
        in prefetch_loop env (t_href t) (t_rest t) st2
      else st)"

text \<open>Letting the waiting runs finish, oldest first, for at most \<open>n\<close> resumptions.\<close>

fun drain :: "nat \<Rightarrow> gil_env \<Rightarrow> gil \<Rightarrow> gil" where
  "drain 0 env st = st"
| "drain (Suc n) env st = (if gi_tasks st = [] then st else drain n env (resume env 0 st))"

text \<open>A bound on the resumptions the waiting runs can still need.\<close>

definition tasks_size :: "gil \<Rightarrow> nat" where
  "tasks_size st = sum_list (map (\<lambda>t. Suc (length (t_rest t))) (gi_tasks st))"

subsection \<open>Triggers and teardown\<close>

definition setupHoverPrefetch :: "gil \<Rightarrow> gil" where
  "setupHoverPrefetch st =
     (let g = gi_next st in
      st\<lparr>gi_listeners := gi_listeners st @
            [(''mouseenter'', False, OnEnter g), (''mouseleave'', False, OnLeave g),
             (''focus'', True, OnEnter g), (''blur'', True, OnLeave g),
             (''touchstart'', False, OnTouch g)],
         gi_cleanup := Some g,
         gi_next := Suc g\<rparr>)"

text \<open>The closure \<^verbatim>\<open>this._cleanup\<close> made by call \<open>g\<close> of \<open>setupHoverPrefetch\<close>.\<close>

definition run_cleanup :: "nat \<Rightarrow> gil \<Rightarrow> gil" where
  "run_cleanup g st =
     st\<lparr>gi_listeners :=
          filter (\<lambda>l. l \<notin> set [(''mouseenter'', False, OnEnter g), (''mouseleave'', False, OnLeave g),
                                (''focus'', True, OnEnter g), (''blur'', True, OnLeave g)])
            (gi_listeners st)\<rparr>"

definition setupVisiblePrefetch :: "gil \<Rightarrow> gil" where
  "setupVisiblePrefetch st =
     (let ob = gi_next st in
      st\<lparr>gi_observer := Some ob, gi_live := gi_live st @ [ob], gi_next := Suc ob\<rparr>)"

definition setupIdlePrefetch :: "gil_env \<Rightarrow> gil \<Rightarrow> gil" where
  "setupIdlePrefetch env st =
     (let t = gi_next st in
      st\<lparr>gi_timers := gi_timers st @
            [(t, if has_requestIdleCallback env then IdleCallback else Timeout)],
         gi_next := Suc t\<rparr>)"

definition setupPrefetch :: "gil_env \<Rightarrow> gil \<Rightarrow> gil" where
  "setupPrefetch env st =
     (let trigger = or_default (getAttribute (gi_attrs st) ''prefetch-on'') ''hover'' in
      if trigger = ''hover'' then setupHoverPrefetch st
      else if trigger = ''visible'' then setupVisiblePrefetch st
      else if trigger = ''idle'' then setupIdlePrefetch env st
      else if trigger = ''immediate'' then doPrefetch env st
      else st)"

definition cleanup :: "gil \<Rightarrow> gil" where
  "cleanup st =
     (let st1 = (case gi_hoverTimer st of
                   Some t \<Rightarrow> st\<lparr>gi_timers := filter (\<lambda>p. fst p \<noteq> t) (gi_timers st)\<rparr>
                 | None \<Rightarrow> st);
          st2 = (case gi_observer st1 of
                   Some ob \<Rightarrow> st1\<lparr>gi_live := removeAll ob (gi_live st1)\<rparr>
                 | None \<Rightarrow> st1)
      in case gi_cleanup st2 of
           Some g \<Rightarrow> run_cleanup g st2
         | None \<Rightarrow> st2)"

text \<open>What a listener does when its event arrives.\<close>

fun handle :: "gil_env \<Rightarrow> gil \<Rightarrow> handler \<Rightarrow> gil" where
  "handle env st (OnEnter g) =
     (let t = gi_next st in
      st\<lparr>gi_hoverTimer := Some t, gi_timers := gi_timers st @ [(t, Timeout)],
         gi_next := Suc t\<rparr>)"
| "handle env st (OnLeave g) =
     (case gi_hoverTimer st of
        Some t \<Rightarrow> st\<lparr>gi_timers := filter (\<lambda>p. fst p \<noteq> t) (gi_timers st), gi_hoverTimer := None\<rparr>
      | None \<Rightarrow> st)"
| "handle env st (OnTouch g) = doPrefetch env st"

text \<open>An event of some type arrives at the element: the listeners registered for it at
  that moment run in the order of their registration.\<close>

definition dispatch :: "gil_env \<Rightarrow> string \<Rightarrow> gil \<Rightarrow> gil" where
  "dispatch env ev st =
     foldl (handle env) st (map (\<lambda>l. snd (snd l)) (filter (\<lambda>l. fst l = ev) (gi_listeners st)))"

text \<open>The observer's callback for one entry (its \<open>isIntersecting\<close>):
  \<^verbatim>\<open>this.doPrefetch(); this.observer?.disconnect()\<close>.\<close>

definition on_visible :: "gil_env \<Rightarrow> gil \<Rightarrow> bool \<Rightarrow> gil" where
  "on_visible env st isIntersecting =
     (if isIntersecting then
        (let st1 = doPrefetch env st in
         case gi_observer st1 of
           Some ob \<Rightarrow> st1\<lparr>gi_live := removeAll ob (gi_live st1)\<rparr>
         | None \<Rightarrow> st1)
      else st)"

subsection \<open>Lifecycle\<close>

definition sync_attrs :: "attrs \<Rightarrow> (string \<times> string) list \<Rightarrow> (string \<times> string) list" where
  "sync_attrs a as =
     (let as1 = foldl (\<lambda>acc k. case getAttribute a k of Some v \<Rightarrow> set_attr k v acc | None \<Rightarrow> acc)
                  as [''target'', ''rel'', ''download'', ''hreflang'', ''type'']
      in case getAttribute a ''link-class'' of
           Some v \<Rightarrow> set_attr ''class'' v as1
         | None \<Rightarrow> as1)"

definition syncAttributes :: "gil \<Rightarrow> gil" where
  "syncAttributes st =
     (if \<not> has_anchor (gi_children st) then st
      else st\<lparr>gi_children := update_anchor (sync_attrs (gi_attrs st)) (gi_children st)\<rparr>)"

text \<open>
  \<open>connectedCallback\<close>. The new anchor takes the element's children as they are
  (\<^verbatim>\<open>anchor.innerHTML = this.innerHTML\<close> is taken to rebuild the same subtree).
\<close>

definition gil_connectedCallback :: "gil_env \<Rightarrow> gil \<Rightarrow> gil" where
  "gil_connectedCallback env st =
     (let st1 = (if \<not> has_anchor (gi_children st) then
                   (let href = or_default (getAttribute (gi_attrs st) ''href'') ''#'' in
                    st\<lparr>gi_children := [Element ''a'' (set_attr ''href'' href []) (gi_children st)]\<rparr>)
                 else st)
      in setupPrefetch env (syncAttributes st1))"

definition gil_disconnectedCallback :: "gil \<Rightarrow> gil" where
  "gil_disconnectedCallback st = cleanup st"

definition gil_attributeChangedCallback :: "gil_env \<Rightarrow> string \<Rightarrow> string option \<Rightarrow> gil \<Rightarrow> gil" where
  "gil_attributeChangedCallback env name newVal st =
     (let st1 = (if name = ''href'' \<and> has_anchor (gi_children st)
                 then st\<lparr>gi_children := update_anchor (set_attr ''href'' (show_null newVal))
                                          (gi_children st)\<rparr>
                 else st)
      in if name = ''prefetch-on'' then setupPrefetch env (cleanup st1) else st1)"

definition gil_observedAttributes :: "string list" where
  "gil_observedAttributes = [''href'', ''prefetch'', ''prefetch-on'', ''prefetch-delay'']"

text \<open>
  What can happen to the element: the lifecycle callbacks, an event arriving, a pending
  timer or idle callback running, the observer being handed entries (while it
  observes), and a waiting run of \<open>doPrefetch\<close> resuming.
\<close>

datatype gil_event =
    GilConnected
  | GilDisconnected
  | GilAttributeChanged string "string option"
  | GilDispatch string
  | GilTimer nat
  | GilDeliver nat "bool list"
  | GilResume nat

fun gil_step :: "gil_env \<Rightarrow> gil \<Rightarrow> gil_event \<Rightarrow> gil" where
  "gil_step env st GilConnected = gil_connectedCallback env st"
| "gil_step env st GilDisconnected = gil_disconnectedCallback st"
| "gil_step env st (GilAttributeChanged name v) =
     (let st1 = st\<lparr>gi_attrs := (gi_attrs st)(name := v)\<rparr>
      in if name \<in> set gil_observedAttributes then gil_attributeChangedCallback env name v st1
         else st1)"
| "gil_step env st (GilDispatch ev) = dispatch env ev st"
| "gil_step env st (GilTimer t) =
     (if t \<in> fst ` set (gi_timers st)
      then doPrefetch env (st\<lparr>gi_timers := filter (\<lambda>p. fst p \<noteq> t) (gi_timers st)\<rparr>)
      else st)"
| "gil_step env st (GilDeliver ob entries) =
     (if ob \<in> set (gi_live st) then foldl (on_visible env) st entries else st)"
| "gil_step env st (GilResume i) = resume env i st"

definition gil_run :: "gil_env \<Rightarrow> gil \<Rightarrow> gil_event list \<Rightarrow> gil" where
  "gil_run env st evs = foldl (gil_step env) st evs"

subsection \<open>What the prefetch bookkeeping keeps\<close>

text \<open>The part of the state that only \<open>doPrefetch\<close> and its resumption write.\<close>

definition core :: "gil \<Rightarrow> string list \<times> (string \<times> string \<times> string option) list \<times> string list \<times> task list" where
  "core st = (gi_prefetched st, gi_attempts st, gi_warnings st, gi_tasks st)"

text \<open>No key is recorded twice, no key is called for twice, and every call made is for a
  recorded key.\<close>

definition dedup_inv :: "gil \<Rightarrow> bool" where
  "dedup_inv st =
     (distinct (gi_prefetched st) \<and> distinct (map fst (gi_attempts st))
      \<and> set (map fst (gi_attempts st)) \<subseteq> set (gi_prefetched st))"

text \<open>Every call that threw has its warning logged, or its run still waits to log it.\<close>

definition warn_inv :: "gil_env \<Rightarrow> gil \<Rightarrow> bool" where
  "warn_inv env st =
     (\<forall>a \<in> set (gi_attempts st).
        throws env (fst (snd a)) (snd (snd a)) \<longrightarrow>
          warn_text (fst a) \<in> set (gi_warnings st) \<or> Some (fst a) \<in> t_warn ` set (gi_tasks st))"

text \<open>State \<open>s\<close> comes after \<open>st0\<close>: the recorded keys and the calls of \<open>st0\<close> are kept in
  their order, and no later call is for a key \<open>st0\<close> had recorded.\<close>

definition extends :: "gil \<Rightarrow> gil \<Rightarrow> bool" where
  "extends st0 s =
     (prefix (gi_prefetched st0) (gi_prefetched s) \<and> prefix (gi_attempts st0) (gi_attempts s)
      \<and> (\<forall>a \<in> set (drop (length (gi_attempts st0)) (gi_attempts s)).
            fst a \<notin> set (gi_prefetched st0)))"

text \<open>The keys the waiting runs will still visit.\<close>

definition pending_keys :: "gil \<Rightarrow> string set" where
  "pending_keys st = (\<Union>t \<in> set (gi_tasks st). (\<lambda>r. resource_key r (t_href t)) ` set (t_rest t))"

text \<open>The type a key was made for (the text before its first colon), whether
  \<open>doPrefetch\<close> has a method for a type, and resources whose types hold no colon, as
  those read from the attribute do.\<close>

definition key_type :: "string \<Rightarrow> string" where
  "key_type k = takeWhile (\<lambda>c. c \<noteq> CHR '':'') k"

definition has_method :: "string \<Rightarrow> bool" where
  "has_method ty = (ty \<in> set awaited_types \<or> ty = ''icons'')"

definition wf_resources :: "resource list \<Rightarrow> bool" where
  "wf_resources rs = (\<forall>r \<in> set rs. CHR '':'' \<notin> set (fst r))"

text \<open>Every recorded key of a type with a method has had its call made, and the waiting
  runs hold well-formed resources.\<close>

definition calls_inv :: "gil \<Rightarrow> bool" where
  "calls_inv st =
     ((\<forall>k \<in> set (gi_prefetched st). has_method (key_type k) \<longrightarrow> k \<in> fst ` set (gi_attempts st))
      \<and> (\<forall>t \<in> set (gi_tasks st). wf_resources (t_rest t)))"

text \<open>Letting all the waiting runs finish.\<close>

definition settle :: "gil_env \<Rightarrow> gil \<Rightarrow> gil" where
  "settle env st = drain (tasks_size st) env st"

section \<open>Touch long-press\<close>

text \<open>The two kinds of timer the touch handlers start, and the events they dispatch
  (\<open>thir:touch-active\<close> with its effect, \<open>thir:touch-inactive\<close>).\<close>

datatype touch_timer = Press | Grace

datatype touch_out = TouchActive string | TouchInactive


subsection \<open>The element's own listeners (ThirElement)\<close>

text \<open>
  The element with what its touch methods touch: \<open>_touchTimer\<close>, \<open>_touchActive\<close>, the class
  \<open>touch-active\<close>, and the call of \<open>_initTouchSupport\<close> that made the bound handlers now
  kept in \<open>_onTouchStart\<close>, \<open>_onTouchEnd\<close> and \<open>_onTouchCancel\<close>. Of the environment: the
  listeners registered (event type and the call that bound them), the pending timers
  with their kind, and the events dispatched. Handles start at 1.
\<close>

record thir =
  th_attrs :: attrs
  th_touchTimer :: "nat option"
  th_touchActive :: bool
  th_class :: bool
  th_bound :: "nat option"
  th_listeners :: "(string \<times> nat) list"
  th_timers :: "(nat \<times> touch_timer) list"
  th_next :: nat
  th_out :: "touch_out list"



definition clearTouchTimer :: "thir \<Rightarrow> thir" where
  "clearTouchTimer st =
     (case th_touchTimer st of
        Some t \<Rightarrow> st\<lparr>th_timers := filter (\<lambda>p. fst p \<noteq> t) (th_timers st), th_touchTimer := None\<rparr>
      | None \<Rightarrow> st)"














subsection \<open>The delegated listeners on the document (touch.js)\<close>

text \<open>
  Elements are named by numbers. The script keeps \<open>touchTimers\<close> (a map from the element
  to its long-press timer) and \<open>activeElements\<close>; the environment keeps the pending timers
  (handle, kind, element), the elements carrying the class \<open>touch-active\<close>, the attributes
  of each element, and the events dispatched on each element.
\<close>

record deleg =
  d_attrs :: "nat \<Rightarrow> attrs"
  d_touchTimers :: "nat \<rightharpoonup> nat"
  d_activeElements :: "nat set"
  d_class :: "nat set"
  d_timers :: "(nat \<times> touch_timer \<times> nat) list"
  d_next :: nat
  d_out :: "(nat \<times> touch_out) list"


definition d_clearTouchTimer :: "nat \<Rightarrow> deleg \<Rightarrow> deleg" where
  "d_clearTouchTimer e st =
     (case d_touchTimers st e of
        Some t \<Rightarrow> st\<lparr>d_timers := filter (\<lambda>p. fst p \<noteq> t) (d_timers st),
                     d_touchTimers := (d_touchTimers st)(e := None)\<rparr>
      | None \<Rightarrow> st)"











section \<open>The style cache\<close>

lemma getElementById_None_iff:
  "getElementById doc i = None \<longleftrightarrow> (\<forall>e \<in> set (head doc) \<union> set (body doc). el_id e \<noteq> i)"
  by (auto simp: getElementById_def find_None_iff)

lemma getElementById_realize: "getElementById (realize i css doc) i \<noteq> None"
proof (cases "getElementById doc i")
  case None
  then have "realize i css doc = appendToHead (createStyle i css) doc"
    by (simp add: realize_def)
  then show ?thesis
    by (simp add: getElementById_None_iff appendToHead_def createStyle_def)
next
  case (Some e)
  then show ?thesis by (simp add: realize_def)
qed

lemma realize_present: "getElementById doc i \<noteq> None \<Longrightarrow> realize i css doc = doc"
  by (auto simp: realize_def split: option.splits)

lemma style_entries_realize_absent:
  "getElementById doc i = None \<Longrightarrow> style_entries (realize i css doc) i = [createStyle i css]"
proof -
  assume h: "getElementById doc i = None"
  then have "\<forall>e \<in> set (head doc) \<union> set (body doc). el_id e \<noteq> i"
    by (simp add: getElementById_None_iff)
  then have "filter (\<lambda>e. el_tag e = ''style'' \<and> el_id e = i) (head doc) = []"
    and "filter (\<lambda>e. el_tag e = ''style'' \<and> el_id e = i) (body doc) = []"
    by (auto simp: filter_empty_conv)
  with h show ?thesis
    by (simp add: realize_def style_entries_def appendToHead_def createStyle_def)
qed

lemma hath_render_all_same:
  "getElementById doc i \<noteq> None \<Longrightarrow> \<forall>w \<in> set ws. hath_id (w_attrs w) = i \<Longrightarrow>
   hath_render_all ws doc = doc"
  by (induction ws arbitrary: doc) (auto simp: hath_render_def Let_def realize_present)

lemma getElementById_Some:
  assumes "getElementById doc i = Some e"
  shows "e \<in> set (head doc) \<union> set (body doc)" and "el_id e = i"
proof -
  from assms obtain k where k: "k < length (head doc @ body doc)"
    "el_id ((head doc @ body doc) ! k) = i" "e = (head doc @ body doc) ! k"
    unfolding getElementById_def find_Some_iff by blast
  from k(1) have "(head doc @ body doc) ! k \<in> set (head doc @ body doc)"
    by (rule nth_mem)
  with k(3) show "e \<in> set (head doc) \<union> set (body doc)" by simp
  from k(2,3) show "el_id e = i" by simp
qed

lemma render_all_fresh:
  assumes "getElementById doc (hath_id (w_attrs w)) = None"
    and "\<forall>v \<in> set ws. hath_id (w_attrs v) = hath_id (w_attrs w)"
  shows "style_entries (hath_render_all (w # ws) doc) (hath_id (w_attrs w))
          = [createStyle (hath_id (w_attrs w)) (hath_css (w_attrs w))]"
proof -
  let ?i = "hath_id (w_attrs w)"
  let ?d = "snd (hath_render w doc)"
  have d: "?d = realize ?i (hath_css (w_attrs w)) doc"
    by (simp add: hath_render_def Let_def)
  have "getElementById ?d ?i \<noteq> None"
    unfolding d by (rule getElementById_realize)
  with assms(2) have "hath_render_all ws ?d = ?d"
    by (intro hath_render_all_same) auto
  then have "hath_render_all (w # ws) doc = ?d" by simp
  with assms(1) show ?thesis
    unfolding d by (simp add: style_entries_realize_absent)
qed

text \<open>
  C1. Rendering when the document already holds an element with the fingerprint as id
  leaves the document as it is; a second render with the same fingerprint leaves the
  document of the first; any number (at least one) of instances with the same
  fingerprint, attached to a document that holds no element with that id, leave exactly
  one stylesheet entry for it, the one the first instance built; and attached to a
  document where that id is carried by stylesheet entries only, and by one at most,
  they leave exactly one.
\<close>

theorem style_cache_idempotent:
  "(getElementById doc (hath_id (w_attrs w)) \<noteq> None \<longrightarrow> snd (hath_render w doc) = doc)
   \<and> (hath_id (w_attrs w2) = hath_id (w_attrs w) \<longrightarrow>
        snd (hath_render w2 (snd (hath_render w doc))) = snd (hath_render w doc))
   \<and> (getElementById doc (hath_id (w_attrs w)) = None
        \<and> (\<forall>v \<in> set ws. hath_id (w_attrs v) = hath_id (w_attrs w)) \<longrightarrow>
        style_entries (hath_render_all (w # ws) doc) (hath_id (w_attrs w))
          = [createStyle (hath_id (w_attrs w)) (hath_css (w_attrs w))])
   \<and> ((\<forall>e \<in> set (head doc) \<union> set (body doc).
           el_id e = hath_id (w_attrs w) \<longrightarrow> el_tag e = ''style'')
        \<and> length (style_entries doc (hath_id (w_attrs w))) \<le> 1
        \<and> (\<forall>v \<in> set ws. hath_id (w_attrs v) = hath_id (w_attrs w)) \<longrightarrow>
        length (style_entries (hath_render_all (w # ws) doc) (hath_id (w_attrs w))) = 1)"
proof (intro conjI impI)
  assume "getElementById doc (hath_id (w_attrs w)) \<noteq> None"
  then show "snd (hath_render w doc) = doc"
    by (simp add: hath_render_def Let_def realize_present)
next
  assume "hath_id (w_attrs w2) = hath_id (w_attrs w)"
  then show "snd (hath_render w2 (snd (hath_render w doc))) = snd (hath_render w doc)"
    by (simp add: hath_render_def Let_def realize_present getElementById_realize)
next
  let ?i = "hath_id (w_attrs w)"
  let ?d = "snd (hath_render w doc)"
  assume h: "getElementById doc ?i = None \<and> (\<forall>v \<in> set ws. hath_id (w_attrs v) = ?i)"
  have d: "?d = realize ?i (hath_css (w_attrs w)) doc"
    by (simp add: hath_render_def Let_def)
  have "getElementById ?d ?i \<noteq> None"
    unfolding d by (rule getElementById_realize)
  with h have "hath_render_all ws ?d = ?d"
    by (intro hath_render_all_same) auto
  then have "hath_render_all (w # ws) doc = ?d" by simp
  with h show "style_entries (hath_render_all (w # ws) doc) ?i
      = [createStyle ?i (hath_css (w_attrs w))]"
    unfolding d by (simp add: style_entries_realize_absent)
next
  let ?i = "hath_id (w_attrs w)"
  assume h: "(\<forall>e \<in> set (head doc) \<union> set (body doc). el_id e = ?i \<longrightarrow> el_tag e = ''style'')
        \<and> length (style_entries doc ?i) \<le> 1
        \<and> (\<forall>v \<in> set ws. hath_id (w_attrs v) = ?i)"
  show "length (style_entries (hath_render_all (w # ws) doc) ?i) = 1"
  proof (cases "getElementById doc ?i")
    case None
    with h have "style_entries (hath_render_all (w # ws) doc) ?i
          = [createStyle ?i (hath_css (w_attrs w))]"
      by (intro render_all_fresh) auto
    then show ?thesis by (simp only: list.size)
  next
    case (Some e)
    then have "e \<in> set (head doc) \<union> set (body doc)" "el_id e = ?i"
      by (rule getElementById_Some)+
    with h have "e \<in> set (style_entries doc ?i)"
      by (auto simp: style_entries_def)
    then have "style_entries doc ?i \<noteq> []" by auto
    with h have l: "length (style_entries doc ?i) = 1"
      by (cases "style_entries doc ?i") auto
    from Some h have "hath_render_all (w # ws) doc = doc"
      by (intro hath_render_all_same) auto
    with l show ?thesis by simp
  qed
qed

text \<open>
  The scenario of two instances with \<open>space = 1rem\<close> on an empty document, and a
  document that already holds the stylesheet.
\<close>

theorem style_cache_idempotent_witness:
  "getElementById \<lparr>head = [createStyle ''Hath-1rem'' ''x''], body = []\<rparr>
      (hath_id [''space'' \<mapsto> ''1rem'']) \<noteq> None
   \<and> snd (hath_render \<lparr>w_attrs = [''space'' \<mapsto> ''1rem''], w_dataset = Map.empty, w_style = Map.empty\<rparr>
          \<lparr>head = [createStyle ''Hath-1rem'' ''x''], body = []\<rparr>)
       = \<lparr>head = [createStyle ''Hath-1rem'' ''x''], body = []\<rparr>
   \<and> getElementById \<lparr>head = [], body = []\<rparr> (hath_id [''space'' \<mapsto> ''1rem'']) = None
   \<and> hath_id [''space'' \<mapsto> ''1 rem''] = hath_id [''space'' \<mapsto> ''1rem'']
   \<and> style_entries
        (hath_render_all
          [\<lparr>w_attrs = [''space'' \<mapsto> ''1rem''], w_dataset = Map.empty, w_style = Map.empty\<rparr>,
           \<lparr>w_attrs = [''space'' \<mapsto> ''1 rem''], w_dataset = Map.empty, w_style = Map.empty\<rparr>]
          \<lparr>head = [], body = []\<rparr>)
        (hath_id [''space'' \<mapsto> ''1rem''])
       = [createStyle (hath_id [''space'' \<mapsto> ''1rem'']) (hath_css [''space'' \<mapsto> ''1rem''])]
   \<and> length (style_entries \<lparr>head = [createStyle ''Hath-1rem'' ''x''], body = []\<rparr>
        (hath_id [''space'' \<mapsto> ''1rem''])) \<le> 1
   \<and> length (style_entries
        (hath_render_all
          [\<lparr>w_attrs = [''space'' \<mapsto> ''1rem''], w_dataset = Map.empty, w_style = Map.empty\<rparr>]
          \<lparr>head = [createStyle ''Hath-1rem'' ''x''], body = []\<rparr>)
        (hath_id [''space'' \<mapsto> ''1rem''])) = 1"
proof -
  let ?d1 = "\<lparr>head = [createStyle ''Hath-1rem'' ''x''], body = []\<rparr>"
  let ?d0 = "\<lparr>head = [], body = []\<rparr>"
  let ?w1 = "\<lparr>w_attrs = [''space'' \<mapsto> ''1rem''], w_dataset = Map.empty, w_style = Map.empty\<rparr>"
  let ?w2 = "\<lparr>w_attrs = [''space'' \<mapsto> ''1 rem''], w_dataset = Map.empty, w_style = Map.empty\<rparr>"
  have i: "hath_id [''space'' \<mapsto> ''1rem''] = ''Hath-1rem''"
    by code_simp
  have j: "hath_id [''space'' \<mapsto> ''1 rem''] = hath_id [''space'' \<mapsto> ''1rem'']"
    by code_simp
  have w: "w_attrs ?w1 = [''space'' \<mapsto> ''1rem'']" "w_attrs ?w2 = [''space'' \<mapsto> ''1 rem'']"
    by simp_all
  have p: "getElementById ?d1 (hath_id (w_attrs ?w1)) \<noteq> None"
    unfolding w i by (simp add: getElementById_def createStyle_def)
  have a: "getElementById ?d0 (hath_id (w_attrs ?w1)) = None"
    by (simp add: getElementById_def)
  have s: "\<forall>v \<in> set [?w2]. hath_id (w_attrs v) = hath_id (w_attrs ?w1)"
    using j by simp
  have t: "\<forall>e \<in> set (head ?d1) \<union> set (body ?d1). el_id e = hath_id (w_attrs ?w1) \<longrightarrow> el_tag e = ''style''"
    by (simp add: createStyle_def)
  have l: "length (style_entries ?d1 (hath_id (w_attrs ?w1))) \<le> 1"
    by (simp add: style_entries_def)
  have e: "\<forall>v \<in> set []. hath_id (w_attrs v) = hath_id (w_attrs ?w1)"
    by simp
  from style_cache_idempotent [of ?d1 ?w1 ?w1 "[]"] p t l e
  have c1: "snd (hath_render ?w1 ?d1) = ?d1"
    and c2: "length (style_entries (hath_render_all [?w1] ?d1) (hath_id (w_attrs ?w1))) = 1"
    by blast+
  from style_cache_idempotent [of ?d0 ?w1 ?w1 "[?w2]"] a s
  have c3: "style_entries (hath_render_all [?w1, ?w2] ?d0) (hath_id (w_attrs ?w1))
      = [createStyle (hath_id (w_attrs ?w1)) (hath_css (w_attrs ?w1))]"
    by blast
  show ?thesis
    using p c1 a j c3 l c2 unfolding w by blast
qed

section \<open>Fingerprints\<close>

subsection \<open>Printing and reading decimal numbers\<close>

lemma digit_char_digit: "d < 10 \<Longrightarrow> is_digit (digit_char d)"
  by (simp add: is_digit_def digit_char_def)

lemma digit_val_digit_char: "d < 10 \<Longrightarrow> digit_val (digit_char d) = d"
  by (simp add: digit_val_def digit_char_def)

lemma show_nat_digits: "list_all is_digit (show_nat n)"
  by (induction n rule: show_nat.induct) (subst show_nat.simps, simp add: digit_char_digit)

lemma show_nat_nonempty: "show_nat n \<noteq> []"
  by (subst show_nat.simps) simp

lemma digits_val_snoc: "digits_val (ds @ [c]) = 10 * digits_val ds + digit_val c"
  by (simp add: digits_val_def)

lemma digits_val_show_nat: "digits_val (show_nat n) = n"
proof (induction n rule: show_nat.induct)
  case (1 n)
  show ?case
  proof (cases "n < 10")
    case True
    then show ?thesis
      by (subst show_nat.simps) (simp add: digits_val_def digit_val_digit_char)
  next
    case False
    with 1 have "digits_val (show_nat (n div 10)) = n div 10" by simp
    with False show ?thesis
      by (subst show_nat.simps) (simp add: digits_val_snoc digit_val_digit_char)
  qed
qed

lemma show_nat_inj: "show_nat m = show_nat n \<Longrightarrow> m = n"
  by (metis digits_val_show_nat)

lemma dash_not_digit: "\<not> is_digit CHR ''-''"
  by (simp add: is_digit_def)

lemma show_nat_no_dash: "show_nat n \<noteq> CHR ''-'' # s"
proof
  assume "show_nat n = CHR ''-'' # s"
  moreover have "list_all is_digit (show_nat n)" by (rule show_nat_digits)
  ultimately show False by (simp add: dash_not_digit)
qed

lemma show_int_inj: "show_int m = show_int n \<Longrightarrow> m = n"
proof -
  assume h: "show_int m = show_int n"
  consider "m < 0" "n < 0" | "m < 0" "\<not> n < 0" | "\<not> m < 0" "n < 0" | "\<not> m < 0" "\<not> n < 0"
    by blast
  then show ?thesis
  proof cases
    case 1
    with h have "show_nat (nat (- m)) = show_nat (nat (- n))" by (simp add: show_int_def)
    then have "nat (- m) = nat (- n)" by (rule show_nat_inj)
    with 1 show ?thesis by simp
  next
    case 2
    with h have "show_nat (nat n) = CHR ''-'' # show_nat (nat (- m))" by (simp add: show_int_def)
    then show ?thesis by (simp add: show_nat_no_dash)
  next
    case 3
    with h have "show_nat (nat m) = CHR ''-'' # show_nat (nat (- n))" by (simp add: show_int_def)
    then show ?thesis by (simp add: show_nat_no_dash)
  next
    case 4
    with h have "show_nat (nat m) = show_nat (nat n)" by (simp add: show_int_def)
    then have "nat m = nat n" by (rule show_nat_inj)
    with 4 show ?thesis by simp
  qed
qed

lemma digit_word: "is_digit c \<Longrightarrow> is_word_char c"
  by (simp add: is_digit_def is_word_char_def Let_def)

lemma dash_not_word: "\<not> is_word_char CHR ''-''"
  by (simp add: is_word_char_def)

lemma sanitize_keep: "list_all (\<lambda>c. is_word_char c \<or> c = CHR ''-'') s \<Longrightarrow> sanitize s = s"
  by (simp add: sanitize_def list_all_iff)

lemma show_int_kept: "list_all (\<lambda>c. is_word_char c \<or> c = CHR ''-'') (show_int n)"
  using show_nat_digits [of "nat n"] show_nat_digits [of "nat (- n)"]
  by (auto simp: show_int_def list_all_iff digit_word)

lemma split_at_dash:
  assumes "CHR ''-'' \<notin> set s1" "CHR ''-'' \<notin> set s2"
    and "x = [] \<or> hd x = CHR ''-''" "y = [] \<or> hd y = CHR ''-''"
    and "s1 @ x = s2 @ y"
  shows "s1 = s2 \<and> x = y"
proof -
  have tx: "takeWhile (\<lambda>c. c \<noteq> CHR ''-'') x = []" using assms(3) by (cases x) auto
  have ty: "takeWhile (\<lambda>c. c \<noteq> CHR ''-'') y = []" using assms(4) by (cases y) auto
  have "takeWhile (\<lambda>c. c \<noteq> CHR ''-'') (s1 @ x) = s1"
    using assms(1) tx by (subst takeWhile_append2) auto
  moreover have "takeWhile (\<lambda>c. c \<noteq> CHR ''-'') (s2 @ y) = s2"
    using assms(2) ty by (subst takeWhile_append2) auto
  ultimately have "s1 = s2" using assms(5) by simp
  with assms(5) show ?thesis by simp
qed

lemma word_only_no_dash: "word_only s \<Longrightarrow> CHR ''-'' \<notin> set s"
  using dash_not_word by (auto simp: word_only_def list_all_iff)


lemma kept_append: "kept (s @ t) = (kept s \<and> kept t)"
  by (simp add: kept_def)

lemma hath_suffix_eq:
  "(if truthy_num (hath_splitAfter a) then ''-split'' @ show_num (hath_splitAfter a) else [])
      = (case hath_split a of None \<Rightarrow> [] | Some n \<Rightarrow> ''-split'' @ show_int n)"
  by (cases "hath_splitAfter a" rule: truthy_num.cases) (simp_all add: hath_split_def)

lemma hath_id_word:
  assumes "word_only (hath_space a)"
  shows "hath_id a = ''Hath-'' @ hath_space a
           @ (if hath_recursive a then ''-recursive'' else [])
           @ (case hath_split a of None \<Rightarrow> [] | Some n \<Rightarrow> ''-split'' @ show_int n)"
proof -
  have sp: "kept (hath_space a)"
    using assms by (simp add: kept_def word_only_def list_all_iff)
  have lit: "kept ''Hath-''" "kept ''-recursive''" "kept ''-split''" "kept []"
    by (simp_all add: kept_def is_word_char_def)
  have si: "\<And>n. kept (show_int n)"
    using show_int_kept by (simp add: kept_def)
  have "kept (''Hath-'' @ hath_space a
           @ (if hath_recursive a then ''-recursive'' else [])
           @ (case hath_split a of None \<Rightarrow> [] | Some n \<Rightarrow> ''-split'' @ show_int n))"
    using sp lit si by (simp only: kept_append split: option.split if_split) simp
  then have "sanitize (''Hath-'' @ hath_space a
           @ (if hath_recursive a then ''-recursive'' else [])
           @ (case hath_split a of None \<Rightarrow> [] | Some n \<Rightarrow> ''-split'' @ show_int n))
      = ''Hath-'' @ hath_space a
           @ (if hath_recursive a then ''-recursive'' else [])
           @ (case hath_split a of None \<Rightarrow> [] | Some n \<Rightarrow> ''-split'' @ show_int n)"
    unfolding kept_def by (rule sanitize_keep)
  then show ?thesis
    by (simp only: hath_id_def Let_def hath_suffix_eq)
qed


lemma hath_suffix_inj:
  assumes "(if r1 then ''-recursive'' else []) @ (case s1 of None \<Rightarrow> [] | Some n \<Rightarrow> ''-split'' @ show_int n)
         = (if r2 then ''-recursive'' else []) @ (case s2 of None \<Rightarrow> [] | Some n \<Rightarrow> ''-split'' @ show_int n)"
  shows "r1 = r2 \<and> s1 = s2"
  using assms by (cases r1; cases r2; cases s1; cases s2) (auto dest: show_int_inj)

lemma hath_suffix_dash:
  "(if r then ''-recursive'' else []) @ (case s of None \<Rightarrow> [] | Some n \<Rightarrow> ''-split'' @ show_int n) = []
   \<or> hd ((if r then ''-recursive'' else []) @ (case s of None \<Rightarrow> [] | Some n \<Rightarrow> ''-split'' @ show_int n)) = CHR ''-''"
  by (cases r; cases s) auto

lemma hath_id_inj:
  assumes wa: "word_only (hath_space a)" and wb: "word_only (hath_space b)"
    and eq: "hath_id a = hath_id b"
  shows "hath_config a = hath_config b"
proof -
  let ?x = "\<lambda>a. (if hath_recursive a then ''-recursive'' else [])
           @ (case hath_split a of None \<Rightarrow> [] | Some n \<Rightarrow> ''-split'' @ show_int n)"
  from eq have "hath_space a @ ?x a = hath_space b @ ?x b"
    by (simp add: hath_id_word [OF wa] hath_id_word [OF wb])
  then have "hath_space a = hath_space b \<and> ?x a = ?x b"
    by (intro split_at_dash word_only_no_dash wa wb hath_suffix_dash)
  then show ?thesis
    using hath_suffix_inj [of "hath_recursive a" "hath_split a" "hath_recursive b" "hath_split b"]
    by (simp add: hath_config_def)
qed

lemma bau_flags_inj:
  assumes "(if i1 then ''-invert'' else []) @ (if b1 then ''-borderless'' else []) @ (if c1 then ''-compact'' else [])
         = (if i2 then ''-invert'' else []) @ (if b2 then ''-borderless'' else []) @ (if c2 then ''-compact'' else [])"
  shows "i1 = i2 \<and> b1 = b2 \<and> c1 = c2"
  using assms by (cases i1; cases b1; cases c1; cases i2; cases b2; cases c2) simp_all

lemma bau_flags_dash:
  "(if i then ''-invert'' else []) @ (if b then ''-borderless'' else []) @ (if c then ''-compact'' else []) = []
   \<or> hd ((if i then ''-invert'' else []) @ (if b then ''-borderless'' else []) @ (if c then ''-compact'' else [])) = CHR ''-''"
  by (cases i; cases b; cases c) simp_all

lemma bau_id_word:
  assumes "word_only (bau_padding a)" "word_only (bau_borderWidth a)"
  shows "bau_id a = ''Bau-'' @ bau_padding a @ ''-'' @ bau_borderWidth a
           @ (if bau_invert a then ''-invert'' else [])
           @ (if bau_borderless a then ''-borderless'' else [])
           @ (if bau_compact a then ''-compact'' else [])"
proof -
  have sp: "kept (bau_padding a)" "kept (bau_borderWidth a)"
    using assms by (simp_all add: kept_def word_only_def list_all_iff)
  have lit: "kept ''Bau-''" "kept ''-''" "kept ''-invert''" "kept ''-borderless''"
    "kept ''-compact''" "kept []"
    by (simp_all add: kept_def is_word_char_def)
  have "kept (''Bau-'' @ bau_padding a @ ''-'' @ bau_borderWidth a
           @ (if bau_invert a then ''-invert'' else [])
           @ (if bau_borderless a then ''-borderless'' else [])
           @ (if bau_compact a then ''-compact'' else []))"
    using sp lit by (simp only: kept_append split: if_split) simp
  then show ?thesis
    unfolding kept_def bau_id_def Let_def by (rule sanitize_keep)
qed

lemma bau_id_inj:
  assumes wa: "word_only (bau_padding a)" "word_only (bau_borderWidth a)"
    and wb: "word_only (bau_padding b)" "word_only (bau_borderWidth b)"
    and eq: "bau_id a = bau_id b"
  shows "bau_config a = bau_config b"
proof -
  let ?f = "\<lambda>a. (if bau_invert a then ''-invert'' else [])
           @ (if bau_borderless a then ''-borderless'' else [])
           @ (if bau_compact a then ''-compact'' else [])"
  from eq have e: "bau_padding a @ (''-'' @ bau_borderWidth a @ ?f a)
      = bau_padding b @ (''-'' @ bau_borderWidth b @ ?f b)"
    by (simp add: bau_id_word [OF wa] bau_id_word [OF wb])
  have "bau_padding a = bau_padding b
      \<and> ''-'' @ bau_borderWidth a @ ?f a = ''-'' @ bau_borderWidth b @ ?f b"
    by (rule split_at_dash [OF word_only_no_dash [OF wa(1)] word_only_no_dash [OF wb(1)] _ _ e])
       simp_all
  then have p: "bau_padding a = bau_padding b"
    and e2: "bau_borderWidth a @ ?f a = bau_borderWidth b @ ?f b"
    by simp_all
  have "bau_borderWidth a = bau_borderWidth b \<and> ?f a = ?f b"
    by (rule split_at_dash [OF word_only_no_dash [OF wa(2)] word_only_no_dash [OF wb(2)]
          bau_flags_dash bau_flags_dash e2])
  then show ?thesis
    using p bau_flags_inj [of "bau_invert a" "bau_borderless a" "bau_compact a"
        "bau_invert b" "bau_borderless b" "bau_compact b"]
    by (simp add: bau_config_def)
qed


text \<open>
  C2 on the code. \<open>render\<close> builds the id as the "unique identifier for this
  configuration", but the sanitizer drops the dot of \<open>1.5rem\<close>: an i-hath with
  \<open>space = 1.5rem\<close> and one with \<open>space = 15rem\<close> differ in their configuration and in
  the stylesheet they would build, and share the fingerprint \<open>Hath-15rem\<close>. Attached to
  one document, the second inserts nothing and is tagged with the first's id, so the
  only stylesheet is the first's and it styles both. The same holds for the padding of
  two i-bau.
\<close>

theorem fingerprint_collision:
  "hath_config [''space'' \<mapsto> ''1.5rem''] \<noteq> hath_config [''space'' \<mapsto> ''15rem'']
   \<and> hath_css [''space'' \<mapsto> ''1.5rem''] \<noteq> hath_css [''space'' \<mapsto> ''15rem'']
   \<and> hath_id [''space'' \<mapsto> ''1.5rem''] = ''Hath-15rem''
   \<and> hath_id [''space'' \<mapsto> ''15rem''] = ''Hath-15rem''
   \<and> style_entries
        (hath_render_all
          [\<lparr>w_attrs = [''space'' \<mapsto> ''1.5rem''], w_dataset = Map.empty, w_style = Map.empty\<rparr>,
           \<lparr>w_attrs = [''space'' \<mapsto> ''15rem''], w_dataset = Map.empty, w_style = Map.empty\<rparr>]
          \<lparr>head = [], body = []\<rparr>)
        ''Hath-15rem''
       = [createStyle ''Hath-15rem'' (hath_css [''space'' \<mapsto> ''1.5rem''])]
   \<and> w_dataset
        (fst (hath_render
          \<lparr>w_attrs = [''space'' \<mapsto> ''15rem''], w_dataset = Map.empty, w_style = Map.empty\<rparr>
          (snd (hath_render
            \<lparr>w_attrs = [''space'' \<mapsto> ''1.5rem''], w_dataset = Map.empty, w_style = Map.empty\<rparr>
            \<lparr>head = [], body = []\<rparr>)))) ''i''
       = Some ''Hath-15rem''
   \<and> bau_config [''padding'' \<mapsto> ''1.5rem''] \<noteq> bau_config [''padding'' \<mapsto> ''15rem'']
   \<and> bau_css [''padding'' \<mapsto> ''1.5rem''] \<noteq> bau_css [''padding'' \<mapsto> ''15rem'']
   \<and> bau_id [''padding'' \<mapsto> ''1.5rem''] = bau_id [''padding'' \<mapsto> ''15rem'']"
  by code_simp

text \<open>
  Where the identifier is unique, as the comment in \<open>render\<close> intends: for two i-hath
  whose \<open>space\<close> values are made of word characters only (and whose split numbers are
  safe integers), and for two i-bau whose \<open>padding\<close> and \<open>border-width\<close> values are made
  of word characters only, configurations that differ in any option give distinct ids.
\<close>

lemma id_distinct_on_word_values:
  "(word_only (hath_space a) \<and> word_only (hath_space b) \<and> split_safe a \<and> split_safe b
      \<and> hath_config a \<noteq> hath_config b \<longrightarrow> hath_id a \<noteq> hath_id b)
   \<and> (word_only (bau_padding c) \<and> word_only (bau_borderWidth c)
      \<and> word_only (bau_padding d) \<and> word_only (bau_borderWidth d)
      \<and> bau_config c \<noteq> bau_config d \<longrightarrow> bau_id c \<noteq> bau_id d)"
  using hath_id_inj [of a b] bau_id_inj [of c d] by blast

section \<open>Option values that do not parse\<close>



lemma split_on_no_sep: "c \<notin> set s \<Longrightarrow> split_on c s = [s]"
  by (induction s) auto

lemma split_on_two: "c \<notin> set n \<Longrightarrow> c \<notin> set d \<Longrightarrow> split_on c (n @ c # d) = [n, d]"
  by (induction n) (auto simp: split_on_no_sep)

lemma hath_splitAfter_removed: "hath_splitAfter (a(''split-after'' := None)) = None"
  by (simp add: hath_splitAfter_def getAttribute_def)

lemma hath_space_removed: "hath_space (a(''split-after'' := None)) = hath_space a"
  by (simp add: hath_space_def getAttribute_def)

lemma hath_recursive_removed: "hath_recursive (a(''split-after'' := None)) = hath_recursive a"
  by (simp add: hath_recursive_def hasAttribute_def)

lemma hath_unparseable:
  assumes "getAttribute a ''split-after'' = Some v" "parseInt v = NaN"
  shows "hath_id a = hath_id (a(''split-after'' := None))"
    and "hath_css a = hath_css (a(''split-after'' := None))"
proof -
  have t: "truthy_num (hath_splitAfter a) = False"
    using assms by (simp add: hath_splitAfter_def)
  show i: "hath_id a = hath_id (a(''split-after'' := None))"
    by (simp add: hath_id_def t hath_splitAfter_removed hath_space_removed hath_recursive_removed)
  show "hath_css a = hath_css (a(''split-after'' := None))"
    by (simp add: hath_css_def Let_def i [symmetric] t hath_splitAfter_removed hath_space_removed
        hath_recursive_removed)
qed

lemma gant_parts_two:
  assumes "getAttribute a ''ratio'' = Some (n @ '':'' @ d)"
    and "CHR '':'' \<notin> set n" "CHR '':'' \<notin> set d"
  shows "gant_parts a = (Some (trim n), Some (trim d))"
  using assms by (simp add: gant_parts_def gant_ratio_def split_on_two)

text \<open>
  C8, amended. The options read with \<^verbatim>\<open>parseInt\<close> resolve as their default
  does when the value fails to parse: an i-hath with an unparseable \<open>split-after\<close> has
  the fingerprint and the stylesheet of the same element without the attribute, the
  \<open>columns\<close> of an i-miriant resolve to 12 and the \<open>limit\<close> of an i-gwistindor to 4.
  The \<open>ratio\<close> of an i-gant-thala is not parsed as a number: a value \<open>n:d\<close> writes its
  two parts, trimmed, into the stylesheet as they are.
\<close>

theorem numeric_option_fallback:
  "(getAttribute a ''split-after'' = Some v \<and> parseInt v = NaN \<longrightarrow>
      hath_id a = hath_id (a(''split-after'' := None))
      \<and> hath_css a = hath_css (a(''split-after'' := None)))
   \<and> (getAttribute a ''columns'' = Some v \<and> parseInt v = NaN \<longrightarrow> miriant_columns a = 12)
   \<and> (getAttribute a ''limit'' = Some v \<and> parseInt v = NaN \<longrightarrow> gwistindor_limit a = 4)
   \<and> (getAttribute a ''ratio'' = Some (n @ '':'' @ d) \<and> CHR '':'' \<notin> set n \<and> CHR '':'' \<notin> set d \<longrightarrow>
        gant_css a =
          nl @ ''        '' @ selector_of (gant_id a) @ '' {'' @ nl
          @ ''          gant-thala-ratio: '' @ trim n @ '' / '' @ trim d @ '';'' @ nl
          @ ''        }'' @ nl @ ''      '')"
proof (intro conjI impI)
  assume "getAttribute a ''split-after'' = Some v \<and> parseInt v = NaN"
  then show "hath_id a = hath_id (a(''split-after'' := None))"
    and "hath_css a = hath_css (a(''split-after'' := None))"
    using hath_unparseable [of a v] by simp_all
next
  assume "getAttribute a ''columns'' = Some v \<and> parseInt v = NaN"
  then show "miriant_columns a = 12"
    by (simp add: miriant_columns_def parseInt_or_def)
next
  assume "getAttribute a ''limit'' = Some v \<and> parseInt v = NaN"
  then show "gwistindor_limit a = 4"
    by (simp add: gwistindor_limit_def parseInt_or_def)
next
  assume "getAttribute a ''ratio'' = Some (n @ '':'' @ d) \<and> CHR '':'' \<notin> set n \<and> CHR '':'' \<notin> set d"
  then have "gant_parts a = (Some (trim n), Some (trim d))"
    using gant_parts_two [of a n d] by simp
  then show "gant_css a =
          nl @ ''        '' @ selector_of (gant_id a) @ '' {'' @ nl
          @ ''          gant-thala-ratio: '' @ trim n @ '' / '' @ trim d @ '';'' @ nl
          @ ''        }'' @ nl @ ''      ''"
    by (simp add: gant_css_def)
qed

text \<open>
  C8 as stated fails on the i-gant-thala: the parts of \<open>ratio = a:b\<close> do not parse as
  numbers, yet they are the resolved parts (not the default \<open>16\<close> and \<open>9\<close>) and are
  written into the stylesheet; a ratio without a colon writes the token \<open>undefined\<close>.
\<close>

theorem ratio_not_parsed:
  "parseInt ''a'' = NaN
   \<and> gant_parts [''ratio'' \<mapsto> ''a:b''] = (Some ''a'', Some ''b'')
   \<and> gant_parts Map.empty = (Some ''16'', Some ''9'')
   \<and> gant_css [''ratio'' \<mapsto> ''a:b'']
     = nl @ ''        [data-i=\"GantThala-a-b\"] {'' @ nl
       @ ''          gant-thala-ratio: a / b;'' @ nl
       @ ''        }'' @ nl @ ''      ''
   \<and> gant_css [''ratio'' \<mapsto> ''wide'']
     = nl @ ''        [data-i=\"GantThala-wide-undefined\"] {'' @ nl
       @ ''          gant-thala-ratio: wide / undefined;'' @ nl
       @ ''        }'' @ nl @ ''      ''"
  by code_simp

theorem numeric_option_fallback_witness:
  "getAttribute [''split-after'' \<mapsto> ''abc'', ''columns'' \<mapsto> ''abc'', ''limit'' \<mapsto> ''abc'',
       ''ratio'' \<mapsto> ''4:3''] ''split-after'' = Some ''abc''
   \<and> parseInt ''abc'' = NaN
   \<and> hath_css [''split-after'' \<mapsto> ''abc'', ''columns'' \<mapsto> ''abc'', ''limit'' \<mapsto> ''abc'',
       ''ratio'' \<mapsto> ''4:3'']
     = hath_css ([''split-after'' \<mapsto> ''abc'', ''columns'' \<mapsto> ''abc'', ''limit'' \<mapsto> ''abc'',
       ''ratio'' \<mapsto> ''4:3''](''split-after'' := None))
   \<and> miriant_columns [''split-after'' \<mapsto> ''abc'', ''columns'' \<mapsto> ''abc'', ''limit'' \<mapsto> ''abc'',
       ''ratio'' \<mapsto> ''4:3''] = 12
   \<and> gwistindor_limit [''split-after'' \<mapsto> ''abc'', ''columns'' \<mapsto> ''abc'', ''limit'' \<mapsto> ''abc'',
       ''ratio'' \<mapsto> ''4:3''] = 4
   \<and> gant_css [''split-after'' \<mapsto> ''abc'', ''columns'' \<mapsto> ''abc'', ''limit'' \<mapsto> ''abc'',
       ''ratio'' \<mapsto> ''4:3'']
     = nl @ ''        [data-i=\"GantThala-4-3\"] {'' @ nl
       @ ''          gant-thala-ratio: 4 / 3;'' @ nl
       @ ''        }'' @ nl @ ''      ''"
proof -
  let ?a = "[''split-after'' \<mapsto> ''abc'', ''columns'' \<mapsto> ''abc'', ''limit'' \<mapsto> ''abc'',
       ''ratio'' \<mapsto> ''4:3'']"
  have g: "getAttribute ?a ''split-after'' = Some ''abc''"
    "getAttribute ?a ''columns'' = Some ''abc''"
    "getAttribute ?a ''limit'' = Some ''abc''"
    "getAttribute ?a ''ratio'' = Some (''4'' @ '':'' @ ''3'')"
    by (simp_all add: getAttribute_def)
  have p: "parseInt ''abc'' = NaN"
    by (simp add: parseInt_def is_space_def is_digit_def)
  have c: "CHR '':'' \<notin> set ''4''" "CHR '':'' \<notin> set ''3''"
    by simp_all
  have t: "trim ''4'' = ''4''" "trim ''3'' = ''3''"
    by (simp_all add: trim_def is_space_def)
  have i: "selector_of (gant_id ?a) = ''[data-i=\"GantThala-4-3\"]''"
    by code_simp
  from numeric_option_fallback [of ?a "''abc''" "''4''" "''3''"] g p c
  have "hath_css ?a = hath_css (?a(''split-after'' := None))"
    and "miriant_columns ?a = 12" and "gwistindor_limit ?a = 4"
    and "gant_css ?a =
          nl @ ''        '' @ selector_of (gant_id ?a) @ '' {'' @ nl
          @ ''          gant-thala-ratio: '' @ trim ''4'' @ '' / '' @ trim ''3'' @ '';'' @ nl
          @ ''        }'' @ nl @ ''      ''"
    by blast+
  then show ?thesis
    using g(1) p by (simp only: t i append_Cons append_Nil simp_thms)
qed

section \<open>Stuck detection\<close>

lemma io_callback_events: "h_events (io_callback es st) = h_events st @ map Not es"
  by (induction es arbitrary: st) (simp_all add: io_callback_def on_entry_def Let_def)

lemma him_step_events:
  "h_events (him_step c st e) = h_events st @
     (case e of HDeliver ob entries \<Rightarrow> (if ob \<in> set (h_live st) then map Not entries else []) | _ \<Rightarrow> [])"
  by (cases e)
     (simp_all add: io_callback_events him_render_def cleanupSentinel_def setupSentinel_def Let_def
        split: option.splits)

lemma him_run_events:
  "h_events (him_run c st evs) = h_events st @ map Not (delivered c st evs)"
proof (induction evs arbitrary: st)
  case Nil
  then show ?case by (simp add: him_run_def)
next
  case (Cons e evs)
  have r: "him_run c st (e # evs) = him_run c (him_step c st e) evs"
    by (simp add: him_run_def)
  have "h_events (him_run c st (e # evs))
      = h_events (him_step c st e) @ map Not (delivered c (him_step c st e) evs)"
    unfolding r by (rule Cons.IH)
  then show ?case
    unfolding him_step_events by (cases e) (simp_all del: him_step.simps)
qed

lemma alternating_map_Not: "alternating (map Not xs) = alternating xs"
  by (induction xs rule: alternating.induct) auto

text \<open>
  C7 as stated fails. With the sentinel enabled and the observer set up, entries with
  visibility false, true, false emit three notifications, \<open>[true, false, true]\<close>;
  entries true, false (the two changes after an initial false that is not delivered)
  emit \<open>[false, true]\<close>; and when an attribute change sets the observer up again while the
  sentinel stays hidden, the new observer's first entry repeats the last notification.
\<close>

theorem stuck_sequence_counterexample:
  "h_events (him_run \<lparr>has_IntersectionObserver = True, has_ResizeObserver = True,
                      has_MutationObserver = True\<rparr>
       (him_init [''sentinel'' \<mapsto> []] \<lparr>head = [], body = []\<rparr>)
       [HConnected, HFrame, HDeliver 1 [False], HDeliver 1 [True], HDeliver 1 [False]])
     = [True, False, True]
   \<and> h_events (him_run \<lparr>has_IntersectionObserver = True, has_ResizeObserver = True,
                      has_MutationObserver = True\<rparr>
       (him_init [''sentinel'' \<mapsto> []] \<lparr>head = [], body = []\<rparr>)
       [HConnected, HFrame, HDeliver 1 [True], HDeliver 1 [False]])
     = [False, True]
   \<and> h_events (him_run \<lparr>has_IntersectionObserver = True, has_ResizeObserver = True,
                      has_MutationObserver = True\<rparr>
       (him_init [''sentinel'' \<mapsto> []] \<lparr>head = [], body = []\<rparr>)
       [HConnected, HFrame, HDeliver 1 [False],
        HAttributeChanged ''offset'' (Some ''1px''), HFrame, HDeliver 3 [False]])
     = [True, True]"
  by code_simp

text \<open>
  C7, amended. Every entry that reaches the observer's callback emits exactly one
  notification, in order, whose boolean is the negation of the entry's visibility; so
  the notifications of a run from the initial state alternate whenever the delivered
  visibilities do.
\<close>

theorem stuck_notifications:
  "h_events (him_run c st evs) = h_events st @ map Not (delivered c st evs)
   \<and> (alternating (delivered c (him_init a doc) evs) \<longrightarrow>
        alternating (h_events (him_run c (him_init a doc) evs)))"
proof
  show "h_events (him_run c st evs) = h_events st @ map Not (delivered c st evs)"
    by (rule him_run_events)
  have "h_events (him_run c (him_init a doc) evs) = map Not (delivered c (him_init a doc) evs)"
    by (simp add: him_run_events him_init_def)
  then show "alternating (delivered c (him_init a doc) evs) \<longrightarrow>
        alternating (h_events (him_run c (him_init a doc) evs))"
    by (simp add: alternating_map_Not)
qed

theorem stuck_notifications_witness:
  "alternating (delivered \<lparr>has_IntersectionObserver = True, has_ResizeObserver = True,
                      has_MutationObserver = True\<rparr>
       (him_init [''sentinel'' \<mapsto> []] \<lparr>head = [], body = []\<rparr>)
       [HConnected, HFrame, HDeliver 1 [False], HDeliver 1 [True]])
   \<and> delivered \<lparr>has_IntersectionObserver = True, has_ResizeObserver = True,
                      has_MutationObserver = True\<rparr>
       (him_init [''sentinel'' \<mapsto> []] \<lparr>head = [], body = []\<rparr>)
       [HConnected, HFrame, HDeliver 1 [False], HDeliver 1 [True]] = [False, True]
   \<and> h_events (him_run \<lparr>has_IntersectionObserver = True, has_ResizeObserver = True,
                      has_MutationObserver = True\<rparr>
       (him_init [''sentinel'' \<mapsto> []] \<lparr>head = [], body = []\<rparr>)
       [HConnected, HFrame, HDeliver 1 [False], HDeliver 1 [True]]) = [True, False]
   \<and> alternating (h_events (him_run \<lparr>has_IntersectionObserver = True, has_ResizeObserver = True,
                      has_MutationObserver = True\<rparr>
       (him_init [''sentinel'' \<mapsto> []] \<lparr>head = [], body = []\<rparr>)
       [HConnected, HFrame, HDeliver 1 [False], HDeliver 1 [True]]))"
proof -
  let ?c = "\<lparr>has_IntersectionObserver = True, has_ResizeObserver = True,
                      has_MutationObserver = True\<rparr>"
  let ?st = "him_init [''sentinel'' \<mapsto> []] \<lparr>head = [], body = []\<rparr>"
  let ?evs = "[HConnected, HFrame, HDeliver 1 [False], HDeliver 1 [True]]"
  have d: "delivered ?c ?st ?evs = [False, True]"
    by code_simp
  have e: "h_events ?st = []"
    by (simp add: him_init_def)
  from stuck_notifications [of ?c ?st ?evs "[''sentinel'' \<mapsto> []]" "\<lparr>head = [], body = []\<rparr>"]
  have "h_events (him_run ?c ?st ?evs) = h_events ?st @ map Not (delivered ?c ?st ?evs)"
    and "alternating (delivered ?c ?st ?evs) \<longrightarrow> alternating (h_events (him_run ?c ?st ?evs))"
    by blast+
  then show ?thesis
    unfolding d e by simp
qed

section \<open>Missing observation primitives\<close>

lemma him_step_no_io:
  assumes "\<not> has_IntersectionObserver c" "h_live st = []"
  shows "h_live (him_step c st e) = []
       \<and> h_events (him_step c st e) = h_events st
       \<and> w_dataset (h_el (him_step c st e)) ''stuck'' = w_dataset (h_el st) ''stuck''"
  using assms
  by (cases e)
     (simp_all add: him_render_def cleanupSentinel_def setupSentinel_def Let_def
        set_data_i_def setProperty_def split: option.splits)

lemma him_run_no_io:
  assumes "\<not> has_IntersectionObserver c" "h_live st = []"
  shows "h_live (him_run c st evs) = []
       \<and> h_events (him_run c st evs) = h_events st
       \<and> w_dataset (h_el (him_run c st evs)) ''stuck'' = w_dataset (h_el st) ''stuck''"
  using assms(2)
proof (induction evs arbitrary: st)
  case Nil
  then show ?case by (simp add: him_run_def)
next
  case (Cons e evs)
  have r: "him_run c st (e # evs) = him_run c (him_step c st e) evs"
    by (simp add: him_run_def)
  from him_step_no_io [OF assms(1) Cons.prems, of e]
  have s: "h_live (him_step c st e) = []" "h_events (him_step c st e) = h_events st"
    "w_dataset (h_el (him_step c st e)) ''stuck'' = w_dataset (h_el st) ''stuck''"
    by simp_all
  from Cons.IH [OF s(1)] show ?case
    unfolding r by (simp only: s)
qed

lemma glan_step_no_obs:
  assumes "\<not> has_ResizeObserver c" "\<not> has_MutationObserver c" "gl_live st = []"
  shows "gl_live (glan_step c st e) = []
       \<and> gl_overflowing (glan_step c st e) = initial_check (gl_overflowing st) [e]"
  using assms
  by (cases e)
     (simp_all add: glan_render_def glan_disconnectedCallback_def setupObservers_def
        toggleOverflowClass_def Let_def split: option.splits)

lemma initial_check_Cons: "initial_check b (e # evs) = initial_check (initial_check b [e]) evs"
  by (cases e) simp_all

lemma glan_run_no_obs:
  assumes "\<not> has_ResizeObserver c" "\<not> has_MutationObserver c" "gl_live st = []"
  shows "gl_live (glan_run c st evs) = []
       \<and> gl_overflowing (glan_run c st evs) = initial_check (gl_overflowing st) evs"
  using assms(3)
proof (induction evs arbitrary: st)
  case Nil
  then show ?case by (simp add: glan_run_def)
next
  case (Cons e evs)
  have r: "glan_run c st (e # evs) = glan_run c (glan_step c st e) evs"
    by (simp add: glan_run_def)
  from glan_step_no_obs [OF assms(1,2) Cons.prems, of e]
  have s: "gl_live (glan_step c st e) = []"
    "gl_overflowing (glan_step c st e) = initial_check (gl_overflowing st) [e]"
    by simp_all
  from Cons.IH [OF s(1)] show ?case
    unfolding r by (simp only: s initial_check_Cons [of _ e evs])
qed

text \<open>
  C9 as stated fails for the overflow container: without \<open>ResizeObserver\<close> and
  \<open>MutationObserver\<close> the initial check of \<open>setupObservers\<close> still runs, and a container
  whose content is wider than itself is classified as overflowing.
\<close>

theorem overflow_without_observers:
  "gl_overflowing
     (glan_run \<lparr>has_IntersectionObserver = False, has_ResizeObserver = False,
                has_MutationObserver = False\<rparr>
        (glan_init Map.empty \<lparr>head = [], body = []\<rparr>) [GConnected 200 100])
   \<and> gl_live
     (glan_run \<lparr>has_IntersectionObserver = False, has_ResizeObserver = False,
                has_MutationObserver = False\<rparr>
        (glan_init Map.empty \<lparr>head = [], body = []\<rparr>) [GConnected 200 100]) = []"
  by code_simp

text \<open>
  C9, amended. Without \<open>IntersectionObserver\<close>, whatever happens to a sticky element, no
  observer is ever observing, no \<open>stuck-change\<close> is dispatched and \<open>data-stuck\<close> is never
  written. Without \<open>ResizeObserver\<close> and \<open>MutationObserver\<close>, whatever happens to an
  overflow container, no observer is ever observing and the class \<open>overflowing\<close> is what
  the initial check of the latest attachment measured (absent before any attachment).
\<close>

theorem capability_degradation:
  "(\<not> has_IntersectionObserver c \<longrightarrow>
      h_live (him_run c (him_init a doc) evs) = []
      \<and> h_events (him_run c (him_init a doc) evs) = []
      \<and> w_dataset (h_el (him_run c (him_init a doc) evs)) ''stuck'' = None)
   \<and> (\<not> has_ResizeObserver c \<and> \<not> has_MutationObserver c \<longrightarrow>
      gl_live (glan_run c (glan_init a doc) gevs) = []
      \<and> gl_overflowing (glan_run c (glan_init a doc) gevs) = initial_check False gevs)"
proof (intro conjI impI)
  assume h: "\<not> has_IntersectionObserver c"
  have l: "h_live (him_init a doc) = []" by (simp add: him_init_def)
  from him_run_no_io [OF h l, of evs]
  show "h_live (him_run c (him_init a doc) evs) = []"
    and "h_events (him_run c (him_init a doc) evs) = []"
    and "w_dataset (h_el (him_run c (him_init a doc) evs)) ''stuck'' = None"
    by (simp_all add: him_init_def)
next
  assume h: "\<not> has_ResizeObserver c \<and> \<not> has_MutationObserver c"
  have l: "gl_live (glan_init a doc) = []" by (simp add: glan_init_def)
  from h glan_run_no_obs [OF _ _ l, of c gevs]
  show "gl_live (glan_run c (glan_init a doc) gevs) = []"
    and "gl_overflowing (glan_run c (glan_init a doc) gevs) = initial_check False gevs"
    by (simp_all add: glan_init_def)
qed

theorem capability_degradation_witness:
  "\<not> has_IntersectionObserver \<lparr>has_IntersectionObserver = False, has_ResizeObserver = False,
                has_MutationObserver = False\<rparr>
   \<and> \<not> has_ResizeObserver \<lparr>has_IntersectionObserver = False, has_ResizeObserver = False,
                has_MutationObserver = False\<rparr>
   \<and> \<not> has_MutationObserver \<lparr>has_IntersectionObserver = False, has_ResizeObserver = False,
                has_MutationObserver = False\<rparr>
   \<and> h_events (him_run \<lparr>has_IntersectionObserver = False, has_ResizeObserver = False,
                has_MutationObserver = False\<rparr>
        (him_init [''sentinel'' \<mapsto> []] \<lparr>head = [], body = []\<rparr>)
        [HConnected, HFrame, HDeliver 1 [False]]) = []
   \<and> w_dataset (h_el (him_run \<lparr>has_IntersectionObserver = False, has_ResizeObserver = False,
                has_MutationObserver = False\<rparr>
        (him_init [''sentinel'' \<mapsto> []] \<lparr>head = [], body = []\<rparr>)
        [HConnected, HFrame, HDeliver 1 [False]])) ''stuck'' = None
   \<and> gl_overflowing (glan_run \<lparr>has_IntersectionObserver = False, has_ResizeObserver = False,
                has_MutationObserver = False\<rparr>
        (glan_init [''sentinel'' \<mapsto> []] \<lparr>head = [], body = []\<rparr>)
        [GConnected 200 100, GObserved 0 50 100])
     = initial_check False [GConnected 200 100, GObserved 0 50 100]
   \<and> initial_check False [GConnected 200 100, GObserved 0 50 100]"
proof -
  have i: "initial_check False [GConnected 200 100, GObserved 0 50 100]"
    by simp
  show ?thesis
    using i capability_degradation
      [of "\<lparr>has_IntersectionObserver = False, has_ResizeObserver = False,
                has_MutationObserver = False\<rparr>"
          "[''sentinel'' \<mapsto> []]" "\<lparr>head = [], body = []\<rparr>"
          "[HConnected, HFrame, HDeliver 1 [False]]"
          "[GConnected 200 100, GObserved 0 50 100]"]
    by simp
qed


section \<open>The inner anchor of an i-gil\<close>

lemma skeleton_update_anchor: "skeleton (update_anchor f ns) = skeleton ns"
  by (induction f ns rule: update_anchor.induct) simp_all

lemma has_anchor_update_anchor: "has_anchor (update_anchor f ns) = has_anchor ns"
  by (induction f ns rule: update_anchor.induct) simp_all

lemma has_anchor_skeleton: "has_anchor (skeleton ns) = has_anchor ns"
  by (induction ns rule: skeleton.induct) simp_all

lemma count_anchors_skeleton: "count_anchors (skeleton ns) = count_anchors ns"
  by (induction ns rule: skeleton.induct) simp_all

lemma children_prefetch_loop: "gi_children (prefetch_loop env href rs st) = gi_children st"
  by (induction env href rs st rule: prefetch_loop.induct) (simp_all add: Let_def)

lemma children_doPrefetch: "gi_children (doPrefetch env st) = gi_children st"
  by (simp add: doPrefetch_def children_prefetch_loop)

lemma children_resume: "gi_children (resume env i st) = gi_children st"
  by (simp add: resume_def Let_def children_prefetch_loop split: option.splits)

lemma children_cleanup: "gi_children (cleanup st) = gi_children st"
  by (simp add: cleanup_def run_cleanup_def Let_def split: option.splits)

lemma children_setupPrefetch: "gi_children (setupPrefetch env st) = gi_children st"
  by (simp add: setupPrefetch_def setupHoverPrefetch_def setupVisiblePrefetch_def
      setupIdlePrefetch_def children_doPrefetch Let_def)

lemma children_handle: "gi_children (handle env st h) = gi_children st"
  by (cases h) (simp_all add: Let_def children_doPrefetch split: option.splits)

lemma children_handles: "gi_children (foldl (handle env) st hs) = gi_children st"
  by (induction hs arbitrary: st) (simp_all add: children_handle)

lemma children_dispatch: "gi_children (dispatch env ev st) = gi_children st"
  by (simp add: dispatch_def children_handles)

lemma children_on_visible: "gi_children (on_visible env st b) = gi_children st"
  by (simp add: on_visible_def Let_def children_doPrefetch split: option.splits)

lemma children_entries: "gi_children (foldl (on_visible env) st bs) = gi_children st"
  by (induction bs arbitrary: st) (simp_all add: children_on_visible)

lemma children_connected_fresh:
  assumes "\<not> has_anchor (gi_children st)"
  shows "gi_children (gil_connectedCallback env st) =
     [Element ''a'' (sync_attrs (gi_attrs st)
                      [(''href'', or_default (getAttribute (gi_attrs st) ''href'') ''#'')])
        (gi_children st)]"
  using assms
  by (simp add: gil_connectedCallback_def Let_def children_setupPrefetch syncAttributes_def)

lemma children_connected_again:
  assumes "has_anchor (gi_children st)"
  shows "gi_children (gil_connectedCallback env st)
       = update_anchor (sync_attrs (gi_attrs st)) (gi_children st)"
  using assms
  by (simp add: gil_connectedCallback_def Let_def children_setupPrefetch syncAttributes_def)

lemma children_attributeChanged:
  "skeleton (gi_children (gil_attributeChangedCallback env name v st)) = skeleton (gi_children st)
   \<and> has_anchor (gi_children (gil_attributeChangedCallback env name v st)) = has_anchor (gi_children st)"
  by (simp add: gil_attributeChangedCallback_def Let_def children_setupPrefetch children_cleanup
      skeleton_update_anchor has_anchor_update_anchor)

lemma step_with_anchor:
  assumes "has_anchor (gi_children st)"
  shows "skeleton (gi_children (gil_step env st e)) = skeleton (gi_children st)
       \<and> has_anchor (gi_children (gil_step env st e))"
proof (cases e)
  case GilConnected
  then show ?thesis
    using assms
    by (simp add: children_connected_again skeleton_update_anchor has_anchor_update_anchor)
next
  case GilDisconnected
  then show ?thesis using assms by (simp add: gil_disconnectedCallback_def children_cleanup)
next
  case (GilAttributeChanged name v)
  then show ?thesis
    using assms
      children_attributeChanged [of env name v "st\<lparr>gi_attrs := (gi_attrs st)(name := v)\<rparr>"]
    by (simp add: Let_def)
next
  case (GilDispatch ev)
  then show ?thesis using assms by (simp add: children_dispatch)
next
  case (GilTimer t)
  then show ?thesis using assms by (simp add: children_doPrefetch)
next
  case (GilDeliver ob entries)
  then show ?thesis using assms by (simp add: children_entries)
next
  case (GilResume i)
  then show ?thesis using assms by (simp add: children_resume)
qed

lemma step_without_anchor:
  assumes "\<not> has_anchor (gi_children st)"
  shows "(e = GilConnected \<and> has_anchor (gi_children (gil_step env st e))
          \<and> skeleton (gi_children (gil_step env st e)) = [Element ''a'' [] (skeleton (gi_children st))])
       \<or> (\<not> has_anchor (gi_children (gil_step env st e))
          \<and> skeleton (gi_children (gil_step env st e)) = skeleton (gi_children st))"
proof (cases e)
  case GilConnected
  then show ?thesis using assms by (simp add: children_connected_fresh)
next
  case GilDisconnected
  then show ?thesis using assms by (simp add: gil_disconnectedCallback_def children_cleanup)
next
  case (GilAttributeChanged name v)
  then show ?thesis
    using assms
      children_attributeChanged [of env name v "st\<lparr>gi_attrs := (gi_attrs st)(name := v)\<rparr>"]
    by (simp add: Let_def)
next
  case (GilDispatch ev)
  then show ?thesis using assms by (simp add: children_dispatch)
next
  case (GilTimer t)
  then show ?thesis using assms by (simp add: children_doPrefetch)
next
  case (GilDeliver ob entries)
  then show ?thesis using assms by (simp add: children_entries)
next
  case (GilResume i)
  then show ?thesis using assms by (simp add: children_resume)
qed

lemma gil_run_Cons: "gil_run env st (e # evs) = gil_run env (gil_step env st e) evs"
  by (simp add: gil_run_def)

lemma run_with_anchor:
  "has_anchor (gi_children st) \<Longrightarrow>
   skeleton (gi_children (gil_run env st evs)) = skeleton (gi_children st)"
proof (induction evs arbitrary: st)
  case Nil
  then show ?case by (simp add: gil_run_def)
next
  case (Cons e evs)
  from step_with_anchor [OF Cons.prems, of env e]
  have s: "skeleton (gi_children (gil_step env st e)) = skeleton (gi_children st)"
    and a: "has_anchor (gi_children (gil_step env st e))"
    by simp_all
  from Cons.IH [OF a] s show ?case
    by (simp add: gil_run_Cons)
qed

lemma run_skeleton:
  "skeleton (gi_children (gil_run env st evs)) = skeleton (gi_children st)
   \<or> skeleton (gi_children (gil_run env st evs)) = [Element ''a'' [] (skeleton (gi_children st))]"
proof (induction evs arbitrary: st)
  case Nil
  then show ?case by (simp add: gil_run_def)
next
  case (Cons e evs)
  show ?case
  proof (cases "has_anchor (gi_children st)")
    case True
    then show ?thesis by (simp add: run_with_anchor)
  next
    case False
    from step_without_anchor [OF False, of e env]
    consider "has_anchor (gi_children (gil_step env st e))"
        "skeleton (gi_children (gil_step env st e)) = [Element ''a'' [] (skeleton (gi_children st))]"
      | "skeleton (gi_children (gil_step env st e)) = skeleton (gi_children st)"
      by blast
    then show ?thesis
    proof cases
      case 1
      then show ?thesis
        using run_with_anchor [of "gil_step env st e" env evs] by (simp add: gil_run_Cons)
    next
      case 2
      then show ?thesis
        using Cons.IH [of "gil_step env st e"] by (simp add: gil_run_Cons)
    qed
  qed
qed

text \<open>
  C10. When the element has no anchor descendant, \<open>connectedCallback\<close> makes its children
  one anchor that wraps the former children and carries the href (with the link
  attributes copied onto it). When it has one, \<open>connectedCallback\<close> changes attributes
  only, and so does everything that can happen to the element afterwards, attach and
  detach cycles included: the tree of tags stays as it is. In any case the element never
  gains more than one anchor.
\<close>

theorem anchor_created_once:
  "(\<not> has_anchor (gi_children st) \<longrightarrow>
      gi_children (gil_connectedCallback env st) =
        [Element ''a'' (sync_attrs (gi_attrs st)
                         [(''href'', or_default (getAttribute (gi_attrs st) ''href'') ''#'')])
           (gi_children st)])
   \<and> (has_anchor (gi_children st) \<longrightarrow>
        skeleton (gi_children (gil_connectedCallback env st)) = skeleton (gi_children st)
        \<and> skeleton (gi_children (gil_run env st evs)) = skeleton (gi_children st))
   \<and> count_anchors (gi_children (gil_run env st evs)) \<le> Suc (count_anchors (gi_children st))"
proof (intro conjI impI)
  assume "\<not> has_anchor (gi_children st)"
  then show "gi_children (gil_connectedCallback env st) =
        [Element ''a'' (sync_attrs (gi_attrs st)
                         [(''href'', or_default (getAttribute (gi_attrs st) ''href'') ''#'')])
           (gi_children st)]"
    by (rule children_connected_fresh)
next
  assume a: "has_anchor (gi_children st)"
  then show "skeleton (gi_children (gil_connectedCallback env st)) = skeleton (gi_children st)"
    by (simp add: children_connected_again skeleton_update_anchor)
  from a show "skeleton (gi_children (gil_run env st evs)) = skeleton (gi_children st)"
    by (rule run_with_anchor)
next
  have "count_anchors (skeleton (gi_children (gil_run env st evs)))
      \<le> Suc (count_anchors (skeleton (gi_children st)))"
    using run_skeleton [of env st evs] by auto
  then show "count_anchors (gi_children (gil_run env st evs)) \<le> Suc (count_anchors (gi_children st))"
    by (simp add: count_anchors_skeleton)
qed

theorem anchor_created_once_witness:
  "\<not> has_anchor (gi_children (gil_init [''href'' \<mapsto> ''/about'', ''target'' \<mapsto> ''_blank''] [Text ''About'']))
   \<and> gi_children (gil_connectedCallback \<lparr>throws = (\<lambda>t v. False), has_requestIdleCallback = True\<rparr>
        (gil_init [''href'' \<mapsto> ''/about'', ''target'' \<mapsto> ''_blank''] [Text ''About'']))
     = [Element ''a'' [(''href'', ''/about''), (''target'', ''_blank'')] [Text ''About'']]
   \<and> has_anchor (gi_children (gil_init [''href'' \<mapsto> ''/about'']
        [Element ''a'' [(''href'', ''/about'')] [Text ''About'']]))
   \<and> skeleton (gi_children (gil_run \<lparr>throws = (\<lambda>t v. False), has_requestIdleCallback = True\<rparr>
        (gil_init [''href'' \<mapsto> ''/about''] [Element ''a'' [(''href'', ''/about'')] [Text ''About'']])
        [GilConnected, GilDisconnected, GilConnected]))
     = [Element ''a'' [] [Text ''About'']]
   \<and> count_anchors (gi_children (gil_run \<lparr>throws = (\<lambda>t v. False), has_requestIdleCallback = True\<rparr>
        (gil_init [''href'' \<mapsto> ''/about'', ''target'' \<mapsto> ''_blank''] [Text ''About''])
        [GilConnected, GilDisconnected, GilConnected])) \<le> 1"
proof -
  let ?env = "\<lparr>throws = (\<lambda>t v. False), has_requestIdleCallback = True\<rparr>"
  let ?s1 = "gil_init [''href'' \<mapsto> ''/about'', ''target'' \<mapsto> ''_blank''] [Text ''About'']"
  let ?s2 = "gil_init [''href'' \<mapsto> ''/about''] [Element ''a'' [(''href'', ''/about'')] [Text ''About'']]"
  let ?evs = "[GilConnected, GilDisconnected, GilConnected]"
  have c1: "gi_children ?s1 = [Text ''About'']" "gi_attrs ?s1 = [''href'' \<mapsto> ''/about'', ''target'' \<mapsto> ''_blank'']"
    by (simp_all add: gil_init_def)
  have c2: "gi_children ?s2 = [Element ''a'' [(''href'', ''/about'')] [Text ''About'']]"
    by (simp add: gil_init_def)
  have sy: "sync_attrs [''href'' \<mapsto> ''/about'', ''target'' \<mapsto> ''_blank'']
              [(''href'', or_default (getAttribute [''href'' \<mapsto> ''/about'', ''target'' \<mapsto> ''_blank''] ''href'') ''#'')]
            = [(''href'', ''/about''), (''target'', ''_blank'')]"
    by (simp add: sync_attrs_def getAttribute_def)
  from anchor_created_once [of ?s1 ?env ?evs]
  have a: "gi_children (gil_connectedCallback ?env ?s1)
     = [Element ''a'' [(''href'', ''/about''), (''target'', ''_blank'')] [Text ''About'']]"
    and b: "count_anchors (gi_children (gil_run ?env ?s1 ?evs)) \<le> 1"
    by (simp_all add: c1 sy)
  from anchor_created_once [of ?s2 ?env ?evs]
  have c: "skeleton (gi_children (gil_run ?env ?s2 ?evs)) = [Element ''a'' [] [Text ''About'']]"
    by (simp add: c2)
  show ?thesis
    using a b c by (simp add: c1 c2)
qed


section \<open>Prefetch bookkeeping\<close>

lemma core_cleanup: "core (cleanup st) = core st"
  by (simp add: core_def cleanup_def run_cleanup_def Let_def split: option.splits)

lemma core_setupHover: "core (setupHoverPrefetch st) = core st"
  by (simp add: core_def setupHoverPrefetch_def Let_def)

lemma core_setupVisible: "core (setupVisiblePrefetch st) = core st"
  by (simp add: core_def setupVisiblePrefetch_def Let_def)

lemma core_setupIdle: "core (setupIdlePrefetch env st) = core st"
  by (simp add: core_def setupIdlePrefetch_def Let_def)

lemma core_syncAttributes: "core (syncAttributes st) = core st"
  by (simp add: core_def syncAttributes_def)

lemma if_pres: "P a \<Longrightarrow> P b \<Longrightarrow> P (if c then a else b)"
  by simp

text \<open>A property of the bookkeeping that the loop and the resumption keep is kept by
  everything that can happen to the element.\<close>

lemma step_preserves:
  assumes dp: "\<And>s. I s \<Longrightarrow> I (doPrefetch env s)"
    and res: "\<And>i s. I s \<Longrightarrow> I (resume env i s)"
    and cor: "\<And>s s'. core s' = core s \<Longrightarrow> I s \<Longrightarrow> I s'"
    and st: "I st"
  shows "I (gil_step env st e)"
proof -
  have sp: "\<And>s. I s \<Longrightarrow> I (setupPrefetch env s)"
  proof -
    fix s assume i: "I s"
    have "I (setupHoverPrefetch s)" using cor [OF core_setupHover i] .
    moreover have "I (setupVisiblePrefetch s)" using cor [OF core_setupVisible i] .
    moreover have "I (setupIdlePrefetch env s)" using cor [OF core_setupIdle i] .
    moreover have "I (doPrefetch env s)" using i by (rule dp)
    ultimately show "I (setupPrefetch env s)"
      using i by (simp add: setupPrefetch_def Let_def)
  qed
  have hd: "\<And>s h. I s \<Longrightarrow> I (handle env s h)"
  proof -
    fix s h assume i: "I s"
    show "I (handle env s h)"
    proof (cases h)
      case (OnEnter g)
      have "core (handle env s (OnEnter g)) = core s" by (simp add: core_def Let_def)
      with i OnEnter show ?thesis using cor by blast
    next
      case (OnLeave g)
      have "core (handle env s (OnLeave g)) = core s"
        by (simp add: core_def split: option.splits)
      with i OnLeave show ?thesis using cor by blast
    next
      case (OnTouch g)
      with i show ?thesis by (simp add: dp)
    qed
  qed
  have hds: "\<And>hs s. I s \<Longrightarrow> I (foldl (handle env) s hs)"
  proof -
    fix hs s show "I s \<Longrightarrow> I (foldl (handle env) s hs)"
      by (induction hs arbitrary: s) (simp_all add: hd)
  qed
  have ov: "\<And>s b. I s \<Longrightarrow> I (on_visible env s b)"
  proof -
    fix s b assume i: "I s"
    have d: "I (doPrefetch env s)" using i by (rule dp)
    have "core (on_visible env s True) = core (doPrefetch env s)"
      by (simp add: on_visible_def core_def Let_def split: option.splits)
    with d have "I (on_visible env s True)" using cor by blast
    moreover have "on_visible env s False = s" by (simp add: on_visible_def)
    ultimately show "I (on_visible env s b)" using i by (cases b) simp_all
  qed
  have ovs: "\<And>bs s. I s \<Longrightarrow> I (foldl (on_visible env) s bs)"
  proof -
    fix bs s show "I s \<Longrightarrow> I (foldl (on_visible env) s bs)"
      by (induction bs arbitrary: s) (simp_all add: ov)
  qed
  show ?thesis
  proof (cases e)
    case GilConnected
    let ?s1 = "if \<not> has_anchor (gi_children st) then
                   (let href = or_default (getAttribute (gi_attrs st) ''href'') ''#'' in
                    st\<lparr>gi_children := [Element ''a'' (set_attr ''href'' href []) (gi_children st)]\<rparr>)
                 else st"
    have "core ?s1 = core st" by (simp add: core_def Let_def)
    then have "core (syncAttributes ?s1) = core st" by (simp add: core_syncAttributes)
    then have "I (syncAttributes ?s1)" using cor st by blast
    then have "I (setupPrefetch env (syncAttributes ?s1))" by (rule sp)
    then show ?thesis using GilConnected by (simp add: gil_connectedCallback_def Let_def)
  next
    case GilDisconnected
    have "core (cleanup st) = core st" by (rule core_cleanup)
    then show ?thesis using GilDisconnected cor st by (simp add: gil_disconnectedCallback_def)
  next
    case (GilAttributeChanged name v)
    let ?s0 = "st\<lparr>gi_attrs := (gi_attrs st)(name := v)\<rparr>"
    let ?s1 = "if name = ''href'' \<and> has_anchor (gi_children ?s0)
                 then ?s0\<lparr>gi_children := update_anchor (set_attr ''href'' (show_null v))
                                          (gi_children ?s0)\<rparr>
                 else ?s0"
    have c0: "core ?s0 = core st" by (simp add: core_def)
    then have i0: "I ?s0" using cor st by blast
    have c1: "core ?s1 = core st" by (simp add: core_def)
    then have i1: "I ?s1" using cor st by blast
    have "core (cleanup ?s1) = core st" using c1 by (simp add: core_cleanup)
    then have "I (cleanup ?s1)" using cor st by blast
    then have i2: "I (setupPrefetch env (cleanup ?s1))" by (rule sp)
    have "gil_attributeChangedCallback env name v ?s0
        = (if name = ''prefetch-on'' then setupPrefetch env (cleanup ?s1) else ?s1)"
      unfolding gil_attributeChangedCallback_def Let_def by (rule refl)
    then have i3: "I (gil_attributeChangedCallback env name v ?s0)"
      using if_pres [of I, OF i2 i1] by (simp only:)
    have "gil_step env st (GilAttributeChanged name v)
        = (if name \<in> set gil_observedAttributes
           then gil_attributeChangedCallback env name v ?s0 else ?s0)"
      unfolding gil_step.simps Let_def by (rule refl)
    then show ?thesis
      unfolding GilAttributeChanged using if_pres [of I, OF i3 i0] by (simp only:)
  next
    case (GilDispatch ev)
    then show ?thesis using st by (simp add: dispatch_def hds)
  next
    case (GilTimer t)
    let ?s0 = "st\<lparr>gi_timers := filter (\<lambda>p. fst p \<noteq> t) (gi_timers st)\<rparr>"
    have "core ?s0 = core st" by (simp add: core_def)
    then have "I ?s0" using cor st by blast
    then have "I (doPrefetch env ?s0)" by (rule dp)
    then show ?thesis using GilTimer st by simp
  next
    case (GilDeliver ob entries)
    then show ?thesis using st by (simp add: ovs)
  next
    case (GilResume i)
    then show ?thesis using st by (simp add: res)
  qed
qed

lemma run_preserves:
  assumes dp: "\<And>s. I s \<Longrightarrow> I (doPrefetch env s)"
    and res: "\<And>i s. I s \<Longrightarrow> I (resume env i s)"
    and cor: "\<And>s s'. core s' = core s \<Longrightarrow> I s \<Longrightarrow> I s'"
  shows "I st \<Longrightarrow> I (gil_run env st evs)"
proof (induction evs arbitrary: st)
  case Nil
  then show ?case by (simp add: gil_run_def)
next
  case (Cons e evs)
  have "I (gil_step env st e)"
    using dp res cor Cons.prems by (rule step_preserves)
  then show ?case using Cons.IH by (simp add: gil_run_Cons)
qed

lemma loop_dedup: "dedup_inv st \<Longrightarrow> dedup_inv (prefetch_loop env href rs st)"
proof (induction env href rs st rule: prefetch_loop.induct)
  case (1 env href st)
  then show ?case by (simp add: dedup_inv_def)
next
  case (2 env href r rs st)
  let ?key = "resource_key r href"
  show ?case
  proof (cases "?key \<in> set (gi_prefetched st)")
    case True
    with 2 show ?thesis by simp
  next
    case False
    let ?s1 = "st\<lparr>gi_prefetched := gi_prefetched st @ [?key]\<rparr>"
    let ?s2 = "?s1\<lparr>gi_attempts := gi_attempts ?s1 @ [(?key, fst r, call_arg r href)],
                 gi_warnings := (if throws env (fst r) (call_arg r href)
                                 then gi_warnings ?s1 @ [warn_text ?key] else gi_warnings ?s1)\<rparr>"
    have d1: "dedup_inv ?s1"
      using "2.prems" False by (auto simp: dedup_inv_def)
    have d2: "dedup_inv ?s2"
      using "2.prems" False by (auto simp: dedup_inv_def)
    consider (aw) "fst r \<in> set awaited_types"
      | (ic) "fst r \<notin> set awaited_types" "fst r = ''icons''"
      | (ot) "fst r \<notin> set awaited_types" "fst r \<noteq> ''icons''"
      by blast
    then show ?thesis
    proof cases
      case aw
      then show ?thesis
        using "2.prems" False by (auto simp: dedup_inv_def Let_def)
    next
      case ic
      from "2.IH"(2) [OF refl False refl ic d2] ic False show ?thesis
        by (simp add: Let_def)
    next
      case ot
      from "2.IH"(3) [OF refl False refl ot d1] ot False show ?thesis
        by (simp add: Let_def)
    qed
  qed
qed

lemma resume_unfold:
  assumes "i < length (gi_tasks st)"
  shows "resume env i st =
     prefetch_loop env (t_href (gi_tasks st ! i)) (t_rest (gi_tasks st ! i))
       (st\<lparr>gi_tasks := take i (gi_tasks st) @ drop (Suc i) (gi_tasks st),
           gi_warnings := (case t_warn (gi_tasks st ! i) of
                             Some key \<Rightarrow> gi_warnings st @ [warn_text key]
                           | None \<Rightarrow> gi_warnings st)\<rparr>)"
  using assms by (simp add: resume_def Let_def split: option.splits)

lemma resume_dedup: "dedup_inv st \<Longrightarrow> dedup_inv (resume env i st)"
proof (cases "i < length (gi_tasks st)")
  case True
  assume d: "dedup_inv st"
  show ?thesis
    unfolding resume_unfold [OF True]
    by (rule loop_dedup) (use d in \<open>simp add: dedup_inv_def\<close>)
next
  case False
  assume "dedup_inv st"
  with False show ?thesis by (simp add: resume_def)
qed

lemma core_dedup: "core s' = core s \<Longrightarrow> dedup_inv s \<Longrightarrow> dedup_inv s'"
  by (simp add: core_def dedup_inv_def)

lemma run_dedup: "dedup_inv st \<Longrightarrow> dedup_inv (gil_run env st evs)"
  by (rule run_preserves [where I = dedup_inv])
     (auto simp: doPrefetch_def intro: loop_dedup resume_dedup core_dedup)

lemma extends_refl: "extends st st"
  by (simp add: extends_def)

lemma extends_mark:
  assumes "extends st0 s"
  shows "extends st0 (s\<lparr>gi_prefetched := gi_prefetched s @ [key]\<rparr>)"
  using assms by (simp add: extends_def)

lemma extends_call:
  assumes "extends st0 s" "key \<notin> set (gi_prefetched s)"
  shows "extends st0 (s\<lparr>gi_prefetched := gi_prefetched s @ [key],
                         gi_attempts := gi_attempts s @ [(key, ty, arg)]\<rparr>)"
proof -
  from assms(1) have p: "prefix (gi_prefetched st0) (gi_prefetched s)"
    and a: "prefix (gi_attempts st0) (gi_attempts s)"
    and n: "\<forall>a \<in> set (drop (length (gi_attempts st0)) (gi_attempts s)). fst a \<notin> set (gi_prefetched st0)"
    by (simp_all add: extends_def)
  from a have l: "length (gi_attempts st0) \<le> length (gi_attempts s)"
    by (rule prefix_length_le)
  from p assms(2) have k: "key \<notin> set (gi_prefetched st0)"
    using set_mono_prefix by blast
  show ?thesis
    using p a n l k by (simp add: extends_def)
qed

lemma loop_extends: "extends st0 st \<Longrightarrow> extends st0 (prefetch_loop env href rs st)"
proof (induction env href rs st rule: prefetch_loop.induct)
  case (1 env href st)
  then show ?case by (simp add: extends_def)
next
  case (2 env href r rs st)
  let ?key = "resource_key r href"
  show ?case
  proof (cases "?key \<in> set (gi_prefetched st)")
    case True
    with 2 show ?thesis by simp
  next
    case False
    let ?s1 = "st\<lparr>gi_prefetched := gi_prefetched st @ [?key]\<rparr>"
    let ?s2 = "?s1\<lparr>gi_attempts := gi_attempts ?s1 @ [(?key, fst r, call_arg r href)],
                 gi_warnings := (if throws env (fst r) (call_arg r href)
                                 then gi_warnings ?s1 @ [warn_text ?key] else gi_warnings ?s1)\<rparr>"
    have d1: "extends st0 ?s1"
      using "2.prems" by (rule extends_mark)
    have c: "extends st0 (st\<lparr>gi_prefetched := gi_prefetched st @ [?key],
                         gi_attempts := gi_attempts st @ [(?key, fst r, call_arg r href)]\<rparr>)"
      using "2.prems" False by (rule extends_call)
    then have d2: "extends st0 ?s2"
      by (simp add: extends_def)
    consider (aw) "fst r \<in> set awaited_types"
      | (ic) "fst r \<notin> set awaited_types" "fst r = ''icons''"
      | (ot) "fst r \<notin> set awaited_types" "fst r \<noteq> ''icons''"
      by blast
    then show ?thesis
    proof cases
      case aw
      then show ?thesis
        using c False by (simp add: extends_def Let_def)
    next
      case ic
      from "2.IH"(2) [OF refl False refl ic d2] ic False show ?thesis
        by (simp add: Let_def)
    next
      case ot
      from "2.IH"(3) [OF refl False refl ot d1] ot False show ?thesis
        by (simp add: Let_def)
    qed
  qed
qed

lemma resume_extends: "extends st0 st \<Longrightarrow> extends st0 (resume env i st)"
proof (cases "i < length (gi_tasks st)")
  case True
  assume d: "extends st0 st"
  show ?thesis
    unfolding resume_unfold [OF True]
    by (rule loop_extends) (use d in \<open>simp add: extends_def\<close>)
next
  case False
  assume "extends st0 st"
  with False show ?thesis by (simp add: resume_def)
qed

lemma core_extends: "core s' = core s \<Longrightarrow> extends st0 s \<Longrightarrow> extends st0 s'"
  by (simp add: core_def extends_def)

lemma run_extends: "extends st (gil_run env st evs)"
  by (rule run_preserves [where I = "extends st"])
     (auto simp: doPrefetch_def intro: loop_extends resume_extends core_extends extends_refl)

lemma dedup_init: "dedup_inv (gil_init a cs)"
  by (simp add: dedup_inv_def gil_init_def)

text \<open>
  C5. The recorded keys of a state are kept, in their order, by everything that can
  happen to the element afterwards; and in every state an element can reach, no key is
  recorded twice and no two calls of a \<open>prefetch...\<close> method were made for the same key.
\<close>

theorem prefetch_dedup:
  "prefix (gi_prefetched st) (gi_prefetched (gil_run env st evs))
   \<and> distinct (gi_prefetched (gil_run env (gil_init a cs) evs))
   \<and> distinct (map fst (gi_attempts (gil_run env (gil_init a cs) evs)))"
proof -
  have "extends st (gil_run env st evs)" by (rule run_extends)
  moreover have "dedup_inv (gil_run env (gil_init a cs) evs)"
    using dedup_init by (rule run_dedup)
  ultimately show ?thesis
    by (simp add: extends_def dedup_inv_def)
qed

theorem prefetch_dedup_witness:
  "gi_prefetched (gil_run \<lparr>throws = (\<lambda>t v. False), has_requestIdleCallback = True\<rparr>
       (gil_init [''href'' \<mapsto> ''/about''] [Text ''About''])
       [GilConnected, GilDispatch ''touchstart'', GilDispatch ''touchstart'', GilResume 0,
        GilDispatch ''touchstart'']) = [''html:/about'']
   \<and> map fst (gi_attempts (gil_run \<lparr>throws = (\<lambda>t v. False), has_requestIdleCallback = True\<rparr>
       (gil_init [''href'' \<mapsto> ''/about''] [Text ''About''])
       [GilConnected, GilDispatch ''touchstart'', GilDispatch ''touchstart'', GilResume 0,
        GilDispatch ''touchstart''])) = [''html:/about'']
   \<and> prefix (gi_prefetched (gil_init [''href'' \<mapsto> ''/about''] [Text ''About'']))
       (gi_prefetched (gil_run \<lparr>throws = (\<lambda>t v. False), has_requestIdleCallback = True\<rparr>
       (gil_init [''href'' \<mapsto> ''/about''] [Text ''About''])
       [GilConnected, GilDispatch ''touchstart'', GilDispatch ''touchstart'', GilResume 0,
        GilDispatch ''touchstart'']))
   \<and> distinct (map fst (gi_attempts (gil_run \<lparr>throws = (\<lambda>t v. False), has_requestIdleCallback = True\<rparr>
       (gil_init [''href'' \<mapsto> ''/about''] [Text ''About''])
       [GilConnected, GilDispatch ''touchstart'', GilDispatch ''touchstart'', GilResume 0,
        GilDispatch ''touchstart''])))"
proof -
  let ?env = "\<lparr>throws = (\<lambda>t v. False), has_requestIdleCallback = True\<rparr>"
  let ?st = "gil_init [''href'' \<mapsto> ''/about''] [Text ''About'']"
  let ?evs = "[GilConnected, GilDispatch ''touchstart'', GilDispatch ''touchstart'', GilResume 0,
        GilDispatch ''touchstart'']"
  have p: "gi_prefetched (gil_run ?env ?st ?evs) = [''html:/about'']"
    by code_simp
  have a: "map fst (gi_attempts (gil_run ?env ?st ?evs)) = [''html:/about'']"
    by code_simp
  from prefetch_dedup [of ?st ?env ?evs "[''href'' \<mapsto> ''/about'']" "[Text ''About'']"]
  have "prefix (gi_prefetched ?st) (gi_prefetched (gil_run ?env ?st ?evs))"
    and "distinct (map fst (gi_attempts (gil_run ?env ?st ?evs)))"
    by blast+
  then show ?thesis
    using p a by blast
qed


section \<open>Failing prefetch calls\<close>

lemma split_on_pieces: "s \<in> set (split_on c xs) \<Longrightarrow> c \<notin> set s"
proof (induction xs arbitrary: s)
  case Nil
  then show ?case by simp
next
  case (Cons x xs)
  show ?case
  proof (cases "x = c")
    case True
    with Cons show ?thesis by auto
  next
    case False
    show ?thesis
    proof (cases "split_on c xs")
      case Nil
      with Cons.prems False show ?thesis by simp
    next
      case (Cons y ys)
      with Cons.prems False have "s = x # y \<or> s \<in> set ys" by simp
      moreover have "c \<notin> set y" using Cons.IH [of y] Cons by simp
      moreover have "s \<in> set ys \<Longrightarrow> c \<notin> set s" using Cons.IH [of s] Cons by simp
      ultimately show ?thesis using False by auto
    qed
  qed
qed

lemma wf_parse_part: "wf_resources (parse_part part)"
proof (cases "CHR '':'' \<in> set part")
  case False
  then show ?thesis by (simp add: parse_part_def wf_resources_def)
next
  case True
  show ?thesis
  proof (cases "split_on CHR '':'' part")
    case Nil
    with True show ?thesis by (simp add: parse_part_def wf_resources_def)
  next
    case (Cons ty rest)
    then have "CHR '':'' \<notin> set ty"
      using split_on_pieces [of ty "CHR '':''" part] by simp
    with True Cons show ?thesis
      by (cases rest) (auto simp: parse_part_def wf_resources_def)
  qed
qed

lemma wf_parsePrefetch: "wf_resources (parsePrefetch a)"
  using wf_parse_part by (auto simp: parsePrefetch_def wf_resources_def)

lemma key_type_key:
  assumes "CHR '':'' \<notin> set (fst r)"
  shows "key_type (resource_key r href) = fst r"
proof -
  have "takeWhile (\<lambda>c. c \<noteq> CHR '':'') (fst r @ CHR '':'' # show_null (value_or (snd r) href))
      = fst r @ takeWhile (\<lambda>c. c \<noteq> CHR '':'') (CHR '':'' # show_null (value_or (snd r) href))"
    by (rule takeWhile_append2) (use assms in auto)
  then show ?thesis
    by (simp add: key_type_def resource_key_def)
qed

lemma no_method_no_call:
  "ty \<notin> set awaited_types \<Longrightarrow> ty \<noteq> ''icons'' \<Longrightarrow> \<not> has_method ty"
  by (simp add: has_method_def)

lemma loop_calls:
  "wf_resources rs \<Longrightarrow> calls_inv st \<Longrightarrow> calls_inv (prefetch_loop env href rs st)"
proof (induction env href rs st rule: prefetch_loop.induct)
  case (1 env href st)
  then show ?case by (simp add: calls_inv_def)
next
  case (2 env href r rs st)
  let ?key = "resource_key r href"
  from "2.prems"(1) have wr: "CHR '':'' \<notin> set (fst r)" and wrs: "wf_resources rs"
    by (simp_all add: wf_resources_def)
  have kt: "key_type ?key = fst r" using wr by (rule key_type_key)
  show ?case
  proof (cases "?key \<in> set (gi_prefetched st)")
    case True
    with 2 wrs show ?thesis by simp
  next
    case False
    let ?s1 = "st\<lparr>gi_prefetched := gi_prefetched st @ [?key]\<rparr>"
    let ?s2 = "?s1\<lparr>gi_attempts := gi_attempts ?s1 @ [(?key, fst r, call_arg r href)],
                 gi_warnings := (if throws env (fst r) (call_arg r href)
                                 then gi_warnings ?s1 @ [warn_text ?key] else gi_warnings ?s1)\<rparr>"
    have d2: "calls_inv ?s2"
      using "2.prems"(2) by (auto simp: calls_inv_def)
    consider (aw) "fst r \<in> set awaited_types"
      | (ic) "fst r \<notin> set awaited_types" "fst r = ''icons''"
      | (ot) "fst r \<notin> set awaited_types" "fst r \<noteq> ''icons''"
      by blast
    then show ?thesis
    proof cases
      case aw
      then show ?thesis
        using "2.prems"(2) wrs False by (auto simp: calls_inv_def Let_def)
    next
      case ic
      from "2.IH"(2) [OF refl False refl ic wrs d2] ic False show ?thesis
        by (simp add: Let_def)
    next
      case ot
      then have "\<not> has_method (key_type ?key)"
        unfolding kt by (rule no_method_no_call)
      then have d1: "calls_inv ?s1"
        using "2.prems"(2) by (auto simp: calls_inv_def)
      from "2.IH"(3) [OF refl False refl ot wrs d1] ot False show ?thesis
        by (simp add: Let_def)
    qed
  qed
qed

lemma doPrefetch_calls: "calls_inv st \<Longrightarrow> calls_inv (doPrefetch env st)"
  by (simp add: doPrefetch_def loop_calls wf_parsePrefetch)

lemma resume_calls: "calls_inv st \<Longrightarrow> calls_inv (resume env i st)"
proof (cases "i < length (gi_tasks st)")
  case True
  assume d: "calls_inv st"
  from d True have w: "wf_resources (t_rest (gi_tasks st ! i))"
    by (simp add: calls_inv_def)
  have "\<forall>t \<in> set (take i (gi_tasks st) @ drop (Suc i) (gi_tasks st)). wf_resources (t_rest t)"
    using d by (auto simp: calls_inv_def dest: in_set_takeD in_set_dropD)
  then show ?thesis
    unfolding resume_unfold [OF True]
    by (intro loop_calls w) (use d in \<open>simp add: calls_inv_def\<close>)
next
  case False
  assume "calls_inv st"
  with False show ?thesis by (simp add: resume_def)
qed

lemma core_calls: "core s' = core s \<Longrightarrow> calls_inv s \<Longrightarrow> calls_inv s'"
  by (simp add: core_def calls_inv_def)

lemma run_calls: "calls_inv st \<Longrightarrow> calls_inv (gil_run env st evs)"
  by (rule run_preserves [where I = calls_inv])
     (auto intro: doPrefetch_calls resume_calls core_calls)

lemma loop_warn: "warn_inv env st \<Longrightarrow> warn_inv env (prefetch_loop env href rs st)"
proof (induction env href rs st rule: prefetch_loop.induct)
  case (1 env href st)
  then show ?case by (simp add: warn_inv_def)
next
  case (2 env href r rs st)
  let ?key = "resource_key r href"
  show ?case
  proof (cases "?key \<in> set (gi_prefetched st)")
    case True
    with 2 show ?thesis by simp
  next
    case False
    let ?s1 = "st\<lparr>gi_prefetched := gi_prefetched st @ [?key]\<rparr>"
    let ?s2 = "?s1\<lparr>gi_attempts := gi_attempts ?s1 @ [(?key, fst r, call_arg r href)],
                 gi_warnings := (if throws env (fst r) (call_arg r href)
                                 then gi_warnings ?s1 @ [warn_text ?key] else gi_warnings ?s1)\<rparr>"
    have d1: "warn_inv env ?s1"
      using "2.prems" by (simp add: warn_inv_def)
    have d2: "warn_inv env ?s2"
      using "2.prems" by (auto simp: warn_inv_def)
    consider (aw) "fst r \<in> set awaited_types"
      | (ic) "fst r \<notin> set awaited_types" "fst r = ''icons''"
      | (ot) "fst r \<notin> set awaited_types" "fst r \<noteq> ''icons''"
      by blast
    then show ?thesis
    proof cases
      case aw
      then show ?thesis
        using "2.prems" False by (auto simp: warn_inv_def Let_def)
    next
      case ic
      from "2.IH"(2) [OF refl False refl ic d2] ic False show ?thesis
        by (simp add: Let_def)
    next
      case ot
      from "2.IH"(3) [OF refl False refl ot d1] ot False show ?thesis
        by (simp add: Let_def)
    qed
  qed
qed

lemma resume_warn: "warn_inv env st \<Longrightarrow> warn_inv env (resume env i st)"
proof (cases "i < length (gi_tasks st)")
  case True
  assume d: "warn_inv env st"
  let ?t = "gi_tasks st ! i"
  let ?s = "st\<lparr>gi_tasks := take i (gi_tasks st) @ drop (Suc i) (gi_tasks st),
           gi_warnings := (case t_warn ?t of
                             Some key \<Rightarrow> gi_warnings st @ [warn_text key]
                           | None \<Rightarrow> gi_warnings st)\<rparr>"
  have ts: "set (gi_tasks st) = insert ?t (set (take i (gi_tasks st) @ drop (Suc i) (gi_tasks st)))"
  proof -
    have "gi_tasks st = take i (gi_tasks st) @ ?t # drop (Suc i) (gi_tasks st)"
      using True by (simp add: id_take_nth_drop [symmetric])
    then have "set (gi_tasks st) = set (take i (gi_tasks st) @ ?t # drop (Suc i) (gi_tasks st))"
      by simp
    then show ?thesis by simp
  qed
  have "warn_inv env ?s"
    unfolding warn_inv_def
  proof
    fix a assume a: "a \<in> set (gi_attempts ?s)"
    show "throws env (fst (snd a)) (snd (snd a)) \<longrightarrow>
          warn_text (fst a) \<in> set (gi_warnings ?s) \<or> Some (fst a) \<in> t_warn ` set (gi_tasks ?s)"
    proof
      assume "throws env (fst (snd a)) (snd (snd a))"
      with d a have "warn_text (fst a) \<in> set (gi_warnings st)
          \<or> Some (fst a) \<in> t_warn ` set (gi_tasks st)"
        by (simp add: warn_inv_def)
      then consider "warn_text (fst a) \<in> set (gi_warnings st)"
        | "t_warn ?t = Some (fst a)"
        | "Some (fst a) \<in> t_warn ` set (take i (gi_tasks st) @ drop (Suc i) (gi_tasks st))"
        unfolding ts by auto
      then show "warn_text (fst a) \<in> set (gi_warnings ?s) \<or> Some (fst a) \<in> t_warn ` set (gi_tasks ?s)"
      proof cases
        case 1
        then show ?thesis by (simp split: option.splits)
      next
        case 2
        then show ?thesis by simp
      next
        case 3
        then show ?thesis by simp
      qed
    qed
  qed
  then show ?thesis
    unfolding resume_unfold [OF True] by (rule loop_warn)
next
  case False
  assume "warn_inv env st"
  with False show ?thesis by (simp add: resume_def)
qed

lemma core_warn: "core s' = core s \<Longrightarrow> warn_inv env s \<Longrightarrow> warn_inv env s'"
  by (simp add: core_def warn_inv_def)

lemma run_warn: "warn_inv env st \<Longrightarrow> warn_inv env (gil_run env st evs)"
  by (rule run_preserves [where I = "warn_inv env"])
     (auto simp: doPrefetch_def intro: loop_warn resume_warn core_warn)

lemma tasks_size_append: "tasks_size (st\<lparr>gi_tasks := ts @ us\<rparr>)
    = tasks_size (st\<lparr>gi_tasks := ts\<rparr>) + tasks_size (st\<lparr>gi_tasks := us\<rparr>)"
  by (simp add: tasks_size_def)

lemma loop_tasks_size: "tasks_size (prefetch_loop env href rs st) \<le> tasks_size st + length rs"
proof (induction env href rs st rule: prefetch_loop.induct)
  case (1 env href st)
  then show ?case by (simp add: tasks_size_def)
next
  case (2 env href r rs st)
  let ?key = "resource_key r href"
  show ?case
  proof (cases "?key \<in> set (gi_prefetched st)")
    case True
    with "2.IH"(1) [OF refl True] show ?thesis by simp
  next
    case False
    let ?s1 = "st\<lparr>gi_prefetched := gi_prefetched st @ [?key]\<rparr>"
    let ?s2 = "?s1\<lparr>gi_attempts := gi_attempts ?s1 @ [(?key, fst r, call_arg r href)],
                 gi_warnings := (if throws env (fst r) (call_arg r href)
                                 then gi_warnings ?s1 @ [warn_text ?key] else gi_warnings ?s1)\<rparr>"
    have t1: "tasks_size ?s1 = tasks_size st" by (simp add: tasks_size_def)
    have t2: "tasks_size ?s2 = tasks_size st" by (simp add: tasks_size_def)
    consider (aw) "fst r \<in> set awaited_types"
      | (ic) "fst r \<notin> set awaited_types" "fst r = ''icons''"
      | (ot) "fst r \<notin> set awaited_types" "fst r \<noteq> ''icons''"
      by blast
    then show ?thesis
    proof cases
      case aw
      then show ?thesis
        using False by (simp add: tasks_size_def Let_def)
    next
      case ic
      from "2.IH"(2) [OF refl False refl ic] ic False t2 show ?thesis
        by (simp add: Let_def)
    next
      case ot
      from "2.IH"(3) [OF refl False refl ot] ot False t1 show ?thesis
        by (simp add: Let_def)
    qed
  qed
qed

lemma resume_size:
  assumes "gi_tasks st \<noteq> []"
  shows "tasks_size (resume env 0 st) < tasks_size st"
proof -
  from assms obtain t ts where ts: "gi_tasks st = t # ts"
    by (cases "gi_tasks st") auto
  then have l: "0 < length (gi_tasks st)" by simp
  let ?s = "st\<lparr>gi_tasks := take 0 (gi_tasks st) @ drop (Suc 0) (gi_tasks st),
           gi_warnings := (case t_warn (gi_tasks st ! 0) of
                             Some key \<Rightarrow> gi_warnings st @ [warn_text key]
                           | None \<Rightarrow> gi_warnings st)\<rparr>"
  have "tasks_size ?s + Suc (length (t_rest t)) = tasks_size st"
    using ts by (simp add: tasks_size_def)
  moreover have "tasks_size (resume env 0 st) \<le> tasks_size ?s + length (t_rest t)"
    unfolding resume_unfold [OF l] using loop_tasks_size [of env "t_href t" "t_rest t" ?s] ts
    by simp
  ultimately show ?thesis by linarith
qed

lemma tasks_size_zero: "tasks_size st = 0 \<Longrightarrow> gi_tasks st = []"
  by (cases "gi_tasks st") (simp_all add: tasks_size_def)

lemma drain_done: "tasks_size st \<le> n \<Longrightarrow> gi_tasks (drain n env st) = []"
proof (induction n arbitrary: st)
  case 0
  then show ?case by (simp add: tasks_size_zero)
next
  case (Suc n)
  show ?case
  proof (cases "gi_tasks st = []")
    case True
    then show ?thesis by simp
  next
    case False
    from resume_size [OF False, of env] Suc.prems
    have "tasks_size (resume env 0 st) \<le> n" by linarith
    from Suc.IH [OF this] False show ?thesis by simp
  qed
qed

lemma drain_preserves:
  assumes "\<And>i s. I s \<Longrightarrow> I (resume env i s)"
  shows "I st \<Longrightarrow> I (drain n env st)"
  by (induction n arbitrary: st) (simp_all add: assms)

lemma loop_cover:
  "set (gi_prefetched st) \<union> pending_keys st \<union> (\<lambda>r. resource_key r href) ` set rs
   \<subseteq> set (gi_prefetched (prefetch_loop env href rs st))
       \<union> pending_keys (prefetch_loop env href rs st)"
proof (induction env href rs st rule: prefetch_loop.induct)
  case (1 env href st)
  then show ?case by (simp add: pending_keys_def)
next
  case (2 env href r rs st)
  let ?key = "resource_key r href"
  show ?case
  proof (cases "?key \<in> set (gi_prefetched st)")
    case True
    with "2.IH"(1) [OF refl True] show ?thesis by auto
  next
    case False
    let ?s1 = "st\<lparr>gi_prefetched := gi_prefetched st @ [?key]\<rparr>"
    let ?s2 = "?s1\<lparr>gi_attempts := gi_attempts ?s1 @ [(?key, fst r, call_arg r href)],
                 gi_warnings := (if throws env (fst r) (call_arg r href)
                                 then gi_warnings ?s1 @ [warn_text ?key] else gi_warnings ?s1)\<rparr>"
    have p1: "pending_keys ?s1 = pending_keys st" by (simp add: pending_keys_def)
    have p2: "pending_keys ?s2 = pending_keys st" by (simp add: pending_keys_def)
    consider (aw) "fst r \<in> set awaited_types"
      | (ic) "fst r \<notin> set awaited_types" "fst r = ''icons''"
      | (ot) "fst r \<notin> set awaited_types" "fst r \<noteq> ''icons''"
      by blast
    then show ?thesis
    proof cases
      case aw
      then show ?thesis
        using False by (auto simp: pending_keys_def Let_def)
    next
      case ic
      from "2.IH"(2) [OF refl False refl ic] have
        "set (gi_prefetched ?s2) \<union> pending_keys ?s2 \<union> (\<lambda>r. resource_key r href) ` set rs
          \<subseteq> set (gi_prefetched (prefetch_loop env href rs ?s2))
              \<union> pending_keys (prefetch_loop env href rs ?s2)" .
      moreover have "prefetch_loop env href (r # rs) st = prefetch_loop env href rs ?s2"
        using ic False by (simp add: Let_def)
      ultimately show ?thesis
        unfolding p2 by auto
    next
      case ot
      from "2.IH"(3) [OF refl False refl ot] have
        "set (gi_prefetched ?s1) \<union> pending_keys ?s1 \<union> (\<lambda>r. resource_key r href) ` set rs
          \<subseteq> set (gi_prefetched (prefetch_loop env href rs ?s1))
              \<union> pending_keys (prefetch_loop env href rs ?s1)" .
      moreover have "prefetch_loop env href (r # rs) st = prefetch_loop env href rs ?s1"
        using ot False by (simp add: Let_def)
      ultimately show ?thesis
        unfolding p1 by auto
    qed
  qed
qed

lemma resume_cover:
  "set (gi_prefetched st) \<union> pending_keys st
   \<subseteq> set (gi_prefetched (resume env i st)) \<union> pending_keys (resume env i st)"
proof (cases "i < length (gi_tasks st)")
  case True
  let ?t = "gi_tasks st ! i"
  let ?s = "st\<lparr>gi_tasks := take i (gi_tasks st) @ drop (Suc i) (gi_tasks st),
           gi_warnings := (case t_warn ?t of
                             Some key \<Rightarrow> gi_warnings st @ [warn_text key]
                           | None \<Rightarrow> gi_warnings st)\<rparr>"
  have "gi_tasks st = take i (gi_tasks st) @ ?t # drop (Suc i) (gi_tasks st)"
    using True by (simp add: id_take_nth_drop [symmetric])
  then have "set (gi_tasks st) = set (take i (gi_tasks st) @ ?t # drop (Suc i) (gi_tasks st))"
    by simp
  then have ts: "set (gi_tasks st) = insert ?t (set (take i (gi_tasks st)) \<union> set (drop (Suc i) (gi_tasks st)))"
    by simp
  have "pending_keys st = pending_keys ?s \<union> (\<lambda>r. resource_key r (t_href ?t)) ` set (t_rest ?t)"
    unfolding pending_keys_def ts by auto
  moreover have "gi_prefetched ?s = gi_prefetched st" by simp
  ultimately show ?thesis
    unfolding resume_unfold [OF True]
    using loop_cover [of ?s "t_href ?t" "t_rest ?t" env] by auto
next
  case False
  then show ?thesis by (simp add: resume_def)
qed

lemma drain_cover:
  assumes "K \<subseteq> set (gi_prefetched st) \<union> pending_keys st"
  shows "K \<subseteq> set (gi_prefetched (drain n env st)) \<union> pending_keys (drain n env st)"
  using assms
  by (rule drain_preserves [where I = "\<lambda>s. K \<subseteq> set (gi_prefetched s) \<union> pending_keys s", rotated])
     (use resume_cover in blast)

lemma settle_tasks: "gi_tasks (settle env st) = []"
  by (simp add: settle_def drain_done)

lemma settle_cover:
  "set (gi_prefetched st) \<union> pending_keys st \<subseteq> set (gi_prefetched (settle env st))"
proof -
  have "set (gi_prefetched st) \<union> pending_keys st
      \<subseteq> set (gi_prefetched (settle env st)) \<union> pending_keys (settle env st)"
    unfolding settle_def by (rule drain_cover) simp
  moreover have "pending_keys (settle env st) = {}"
    by (simp add: pending_keys_def settle_tasks)
  ultimately show ?thesis by simp
qed

lemma settle_calls: "calls_inv st \<Longrightarrow> calls_inv (settle env st)"
  unfolding settle_def by (rule drain_preserves [where I = calls_inv]) (rule resume_calls)

lemma settle_warn: "warn_inv env st \<Longrightarrow> warn_inv env (settle env st)"
  unfolding settle_def by (rule drain_preserves [where I = "warn_inv env"]) (rule resume_warn)

lemma calls_init: "calls_inv (gil_init a cs)"
  by (simp add: calls_inv_def gil_init_def)

lemma warn_init: "warn_inv env (gil_init a cs)"
  by (simp add: warn_inv_def gil_init_def)

lemma no_retry:
  assumes "k \<in> set (gi_prefetched st)"
  shows "filter (\<lambda>c. fst c = k) (gi_attempts (gil_run env st evs))
       = filter (\<lambda>c. fst c = k) (gi_attempts st)"
proof -
  have e: "extends st (gil_run env st evs)" by (rule run_extends)
  then have "prefix (gi_attempts st) (gi_attempts (gil_run env st evs))"
    by (simp add: extends_def)
  then obtain as where as: "gi_attempts (gil_run env st evs) = gi_attempts st @ as"
    by (auto simp: prefix_def)
  with e have "\<forall>c \<in> set as. fst c \<notin> set (gi_prefetched st)"
    by (simp add: extends_def)
  with assms have "filter (\<lambda>c. fst c = k) as = []"
    by (auto simp: filter_empty_conv)
  with as show ?thesis by simp
qed

text \<open>
  C4 as stated fails in its last part. With every call throwing, a touch starts
  \<open>doPrefetch\<close>: the key is recorded before the call, the rejection is caught and logged
  when the run resumes, and the key stays recorded; a second touch makes no further call.
\<close>

theorem failed_pair_not_retried:
  "throws \<lparr>throws = (\<lambda>t v. True), has_requestIdleCallback = True\<rparr> ''html'' (Some ''/about'')
   \<and> gi_prefetched (gil_run \<lparr>throws = (\<lambda>t v. True), has_requestIdleCallback = True\<rparr>
        (gil_init [''href'' \<mapsto> ''/about''] [Text ''About''])
        [GilConnected, GilDispatch ''touchstart'', GilResume 0]) = [''html:/about'']
   \<and> gi_warnings (gil_run \<lparr>throws = (\<lambda>t v. True), has_requestIdleCallback = True\<rparr>
        (gil_init [''href'' \<mapsto> ''/about''] [Text ''About''])
        [GilConnected, GilDispatch ''touchstart'', GilResume 0])
       = [''[i-gil] Failed to prefetch html:/about'']
   \<and> gi_attempts (gil_run \<lparr>throws = (\<lambda>t v. True), has_requestIdleCallback = True\<rparr>
        (gil_init [''href'' \<mapsto> ''/about''] [Text ''About''])
        [GilConnected, GilDispatch ''touchstart'', GilResume 0])
       = [(''html:/about'', ''html'', Some ''/about'')]
   \<and> gi_attempts (gil_run \<lparr>throws = (\<lambda>t v. True), has_requestIdleCallback = True\<rparr>
        (gil_init [''href'' \<mapsto> ''/about''] [Text ''About''])
        [GilConnected, GilDispatch ''touchstart'', GilResume 0,
         GilDispatch ''touchstart'', GilResume 0])
       = [(''html:/about'', ''html'', Some ''/about'')]"
  by code_simp

text \<open>
  C4, amended. In any state the element can reach, start \<open>doPrefetch\<close> and let the waiting
  runs finish. Whatever calls throw: no run is left waiting; every resource of the batch
  has its key recorded, and every one whose type has a prefetch method has had its call
  made; every call that threw has its warning logged; and for every recorded key,
  failed or not, nothing that happens later makes another call.
\<close>

theorem prefetch_failure_handling:
  "let st = gil_run env (gil_init a cs) evs;
       href = getAttribute (gi_attrs st) ''href'';
       st' = settle env (doPrefetch env st)
   in gi_tasks st' = []
      \<and> (\<forall>r \<in> set (parsePrefetch (gi_attrs st)).
            resource_key r href \<in> set (gi_prefetched st')
            \<and> (has_method (fst r) \<longrightarrow> resource_key r href \<in> fst ` set (gi_attempts st')))
      \<and> (\<forall>c \<in> set (gi_attempts st').
            throws env (fst (snd c)) (snd (snd c)) \<longrightarrow> warn_text (fst c) \<in> set (gi_warnings st'))
      \<and> (\<forall>k \<in> set (gi_prefetched st').
            filter (\<lambda>c. fst c = k) (gi_attempts (gil_run env st' evs2))
              = filter (\<lambda>c. fst c = k) (gi_attempts st'))"
proof -
  define st where "st = gil_run env (gil_init a cs) evs"
  define href where "href = getAttribute (gi_attrs st) ''href''"
  define st' where "st' = settle env (doPrefetch env st)"
  have t: "gi_tasks st' = []"
    unfolding st'_def by (rule settle_tasks)
  have ci: "calls_inv st'"
    unfolding st'_def st_def
    by (intro settle_calls doPrefetch_calls run_calls calls_init)
  have wi: "warn_inv env st'"
    unfolding st'_def st_def doPrefetch_def
    by (intro settle_warn loop_warn run_warn warn_init)
  have cov: "(\<lambda>r. resource_key r href) ` set (parsePrefetch (gi_attrs st)) \<subseteq> set (gi_prefetched st')"
  proof -
    have "(\<lambda>r. resource_key r href) ` set (parsePrefetch (gi_attrs st))
        \<subseteq> set (gi_prefetched (doPrefetch env st)) \<union> pending_keys (doPrefetch env st)"
      unfolding doPrefetch_def href_def
      using loop_cover [of st "getAttribute (gi_attrs st) ''href''" "parsePrefetch (gi_attrs st)" env]
      by blast
    then show ?thesis
      unfolding st'_def using settle_cover [of "doPrefetch env st" env] by blast
  qed
  have r: "\<forall>r \<in> set (parsePrefetch (gi_attrs st)).
            resource_key r href \<in> set (gi_prefetched st')
            \<and> (has_method (fst r) \<longrightarrow> resource_key r href \<in> fst ` set (gi_attempts st'))"
  proof
    fix r assume m: "r \<in> set (parsePrefetch (gi_attrs st))"
    then have k: "resource_key r href \<in> set (gi_prefetched st')"
      using cov by blast
    from m have "CHR '':'' \<notin> set (fst r)"
      using wf_parsePrefetch [of "gi_attrs st"] by (simp add: wf_resources_def)
    then have "key_type (resource_key r href) = fst r"
      by (rule key_type_key)
    with k ci have "has_method (fst r) \<longrightarrow> resource_key r href \<in> fst ` set (gi_attempts st')"
      by (auto simp: calls_inv_def)
    with k show "resource_key r href \<in> set (gi_prefetched st')
            \<and> (has_method (fst r) \<longrightarrow> resource_key r href \<in> fst ` set (gi_attempts st'))"
      by simp
  qed
  have w: "\<forall>c \<in> set (gi_attempts st').
            throws env (fst (snd c)) (snd (snd c)) \<longrightarrow> warn_text (fst c) \<in> set (gi_warnings st')"
    using wi t by (simp add: warn_inv_def)
  have n: "\<forall>k \<in> set (gi_prefetched st').
            filter (\<lambda>c. fst c = k) (gi_attempts (gil_run env st' evs2))
              = filter (\<lambda>c. fst c = k) (gi_attempts st')"
    using no_retry by blast
  show ?thesis
    using t r w n unfolding Let_def st_def [symmetric] href_def [symmetric] st'_def [symmetric]
    by blast
qed

theorem prefetch_failure_handling_witness:
  "let env = \<lparr>throws = (\<lambda>t v. True), has_requestIdleCallback = True\<rparr>;
       st = gil_run env (gil_init [''href'' \<mapsto> ''/about'', ''prefetch'' \<mapsto> ''html icons''] [Text ''About''])
              [GilConnected];
       st' = settle env (doPrefetch env st)
   in (''html'', None) \<in> set (parsePrefetch (gi_attrs st))
      \<and> has_method ''html''
      \<and> resource_key (''html'', None) (getAttribute (gi_attrs st) ''href'') = ''html:/about''
      \<and> (''html:/about'', ''html'', Some ''/about'') \<in> set (gi_attempts st')
      \<and> throws env ''html'' (Some ''/about'')
      \<and> gi_tasks st' = []
      \<and> ''html:/about'' \<in> set (gi_prefetched st')
      \<and> ''html:/about'' \<in> fst ` set (gi_attempts st')
      \<and> warn_text ''html:/about'' \<in> set (gi_warnings st')
      \<and> filter (\<lambda>c. fst c = ''html:/about'')
            (gi_attempts (gil_run env st' [GilDispatch ''touchstart'', GilResume 0]))
          = filter (\<lambda>c. fst c = ''html:/about'') (gi_attempts st')"
proof -
  define env where "env = \<lparr>throws = (\<lambda>t v. True), has_requestIdleCallback = True\<rparr>"
  define st where "st = gil_run env
      (gil_init [''href'' \<mapsto> ''/about'', ''prefetch'' \<mapsto> ''html icons''] [Text ''About'']) [GilConnected]"
  define st' where "st' = settle env (doPrefetch env st)"
  have m: "(''html'', None) \<in> set (parsePrefetch (gi_attrs st))"
    unfolding st_def env_def by code_simp
  have h: "has_method ''html''"
    by (simp add: has_method_def awaited_types_def)
  have k: "resource_key (''html'', None) (getAttribute (gi_attrs st) ''href'') = ''html:/about''"
    unfolding st_def env_def by code_simp
  have c: "(''html:/about'', ''html'', Some ''/about'') \<in> set (gi_attempts st')"
    unfolding st'_def st_def env_def by code_simp
  have th: "throws env ''html'' (Some ''/about'')"
    by (simp add: env_def)
  note T = prefetch_failure_handling
      [of env "[''href'' \<mapsto> ''/about'', ''prefetch'' \<mapsto> ''html icons'']" "[Text ''About'']"
          "[GilConnected]" "[GilDispatch ''touchstart'', GilResume 0]",
       unfolded Let_def, folded st_def, folded st'_def]
  from T have t: "gi_tasks st' = []" by blast
  from T m k have p: "''html:/about'' \<in> set (gi_prefetched st')" by force
  from T m k h have a: "''html:/about'' \<in> fst ` set (gi_attempts st')" by force
  from T c th have w: "warn_text ''html:/about'' \<in> set (gi_warnings st')" by force
  from T p have f: "filter (\<lambda>c. fst c = ''html:/about'')
            (gi_attempts (gil_run env st' [GilDispatch ''touchstart'', GilResume 0]))
          = filter (\<lambda>c. fst c = ''html:/about'') (gi_attempts st')" by blast
  show ?thesis
    unfolding Let_def env_def [symmetric] st_def [symmetric] st'_def [symmetric]
    using m h k c th t p a w f by blast
qed


section \<open>Teardown\<close>

text \<open>
  C3 on the code. Detaching an i-gil runs \<open>cleanup\<close>, whose \<^verbatim>\<open>_cleanup\<close> closure removes
  four of the five listeners \<open>setupHoverPrefetch\<close> added: the \<open>touchstart\<close> listener stays
  and still starts \<open>doPrefetch\<close>. The idle callback of \<open>setupIdlePrefetch\<close> is not kept
  anywhere, stays pending after the detachment and starts \<open>doPrefetch\<close> when it runs. The
  frame callback an i-him asked for in \<open>render\<close> stays pending too, and when it runs
  after the detachment it sets up an observer, whose entries dispatch \<open>stuck-change\<close>.
\<close>

theorem callbacks_after_teardown:
  "gi_listeners (gil_run \<lparr>throws = (\<lambda>t v. False), has_requestIdleCallback = True\<rparr>
       (gil_init [''href'' \<mapsto> ''/about''] [Text ''About''])
       [GilConnected, GilDisconnected]) = [(''touchstart'', False, OnTouch 1)]
   \<and> gi_attempts (gil_run \<lparr>throws = (\<lambda>t v. False), has_requestIdleCallback = True\<rparr>
       (gil_init [''href'' \<mapsto> ''/about''] [Text ''About''])
       [GilConnected, GilDisconnected, GilDispatch ''touchstart''])
     = [(''html:/about'', ''html'', Some ''/about'')]
   \<and> gi_timers (gil_run \<lparr>throws = (\<lambda>t v. False), has_requestIdleCallback = True\<rparr>
       (gil_init [''href'' \<mapsto> ''/about'', ''prefetch-on'' \<mapsto> ''idle''] [Text ''About''])
       [GilConnected, GilDisconnected]) = [(1, IdleCallback)]
   \<and> gi_attempts (gil_run \<lparr>throws = (\<lambda>t v. False), has_requestIdleCallback = True\<rparr>
       (gil_init [''href'' \<mapsto> ''/about'', ''prefetch-on'' \<mapsto> ''idle''] [Text ''About''])
       [GilConnected, GilDisconnected, GilTimer 1])
     = [(''html:/about'', ''html'', Some ''/about'')]
   \<and> h_frames (him_run \<lparr>has_IntersectionObserver = True, has_ResizeObserver = True,
                      has_MutationObserver = True\<rparr>
       (him_init [''sentinel'' \<mapsto> []] \<lparr>head = [], body = []\<rparr>)
       [HConnected, HDisconnected]) = 1
   \<and> h_live (him_run \<lparr>has_IntersectionObserver = True, has_ResizeObserver = True,
                      has_MutationObserver = True\<rparr>
       (him_init [''sentinel'' \<mapsto> []] \<lparr>head = [], body = []\<rparr>)
       [HConnected, HDisconnected, HFrame]) = [1]
   \<and> h_events (him_run \<lparr>has_IntersectionObserver = True, has_ResizeObserver = True,
                      has_MutationObserver = True\<rparr>
       (him_init [''sentinel'' \<mapsto> []] \<lparr>head = [], body = []\<rparr>)
       [HConnected, HDisconnected, HFrame, HDeliver 1 [False]]) = [True]"
  by code_simp

section \<open>Touch timers\<close>





lemma clear_tracked: "th_touchTimer (clearTouchTimer st) = None"
  by (simp add: clearTouchTimer_def split: option.splits)
















lemma d_clear_tracked: "d_touchTimers (d_clearTouchTimer e st) e = None"
  by (simp add: d_clearTouchTimer_def split: option.splits)













end
